theory Spec2Isabelle
  imports Main
begin

section \<open>Data model of the file processor\<close>

text \<open>
  The program (\<^verbatim>\<open>main.go\<close>) walks a directory, sends every regular file path into the
  buffered channel \<^verbatim>\<open>jobs\<close> (capacity 100), and a pool of worker goroutines receives the
  paths, hashes each file and counts successes and failures. An autoscaler goroutine adds
  workers, a reporter goroutine prints snapshots, and \<^verbatim>\<open>main\<close> joins the workers through
  a \<^verbatim>\<open>sync.WaitGroup\<close> before it prints the summary.

  The goroutines are modelled as an interleaving transition system: the state below holds
  every shared variable and the program counter of every goroutine; an event names the
  goroutine that runs next and, where that goroutine stands at a \<^verbatim>\<open>select\<close>, the case the
  runtime picks. Time is abstracted: a ticker may fire at any moment, \<^verbatim>\<open>time.Sleep\<close> is
  omitted. The file system and SHA256 are a parameter of the model.
\<close>

type_synonym path = string

text \<open>\<^verbatim>\<open>type Metrics struct { processed int64; failed int64 }\<close>. The counters only grow by
  one per file, so the 64-bit range is never left and they are unbounded integers here.\<close>

record Metrics =
  processed :: int
  failed :: int

text \<open>The error values built by \<^verbatim>\<open>processFile\<close>: \<^verbatim>\<open>fmt.Errorf("open %s: %w", path, err)\<close>
  and \<^verbatim>\<open>fmt.Errorf("hash %s: %w", path, err)\<close>; each holds the path and the cause.\<close>

datatype perror = OpenError path string | HashError path string

fun perror_path :: "perror \<Rightarrow> path" where
  "perror_path (OpenError p c) = p"
| "perror_path (HashError p c) = p"


text \<open>What the file system answers for a path: \<^verbatim>\<open>os.Open\<close> fails with a cause, or
  \<^verbatim>\<open>io.Copy\<close> into the hasher fails with a cause, or the content is read and its SHA256 is
  the given hex string.\<close>

datatype fileres = Unopenable string | Unreadable string | Readable string

type_synonym filesystem = "path \<Rightarrow> fileres"

text \<open>Lines written to standard output. \<^verbatim>\<open>runtime.NumGoroutine()\<close> in the metrics line is
  an observation of the runtime and is not part of the line here.\<close>

datatype out =
    OutSignal
  | OutWorkerShutdown int
  | OutProcessed path string
  | OutMetrics int int nat
  | OutReporterShutdown
  | OutSpawned int int
  | OutReducing int
  | OutWalkError string
  | OutComplete
  | OutFilesProcessed int
  | OutFilesFailed int
  | OutSomeErrors
  | OutError perror

text \<open>The buffered channel \<^verbatim>\<open>jobs := make(chan string, 100)\<close>.\<close>

record chan =
  buf :: "path list"
  closed :: bool

definition jobsCap :: nat where
  "jobsCap = 100"

datatype panic = SendOnClosedChannel | CloseOfClosedChannel | NegativeWaitGroup

text \<open>A step either cannot be taken now (\<open>Blocked\<close>: the goroutine waits, or does not
  exist any more), or crashes the process (\<open>Panic\<close>), or yields the next state.\<close>

datatype fault = Blocked | Panic panic

text \<open>Where a worker goroutine stands: at the \<^verbatim>\<open>select\<close>, inside \<^verbatim>\<open>processFile(path)\<close>,
  between \<^verbatim>\<open>atomic.AddInt64(&metrics.failed, 1)\<close> and the append to \<^verbatim>\<open>errors\<close>, or
  returned.\<close>

datatype wstate = WSelect | WProcessing path | WLogging perror | WExited

record worker =
  wid :: int
  wst :: wstate

text \<open>One call of the \<^verbatim>\<open>filepath.Walk\<close> callback: with an error, on a directory, or on
  any other entry.\<close>

datatype walk_entry = EntryErr path string | EntryDir path | EntryFile path

datatype walk_error = Canceled | WalkFailed string

datatype pstate = PWalking | PExited

text \<open>The case a \<^verbatim>\<open>select\<close> takes: the communication (send, receive or tick), or
  \<^verbatim>\<open><-ctx.Done()\<close>.\<close>

datatype sel = SelWork | SelDone

datatype event =
    Signal
  | Producer sel
  | Worker nat sel
  | Reporter sel
  | Autoscaler sel
  | MainJoin

text \<open>The whole program state. \<open>pending\<close> holds the entries the walk has not visited
  yet; \<open>dequeued\<close> is a history variable, the paths received from \<^verbatim>\<open>jobs\<close> so far in
  order, and no step reads it.\<close>

record state =
  cancelled :: bool
  jobs :: chan
  wg :: int
  metrics :: Metrics
  errors :: "perror list"
  pending :: "walk_entry list"
  producer :: pstate
  workers :: "worker list"
  reporter :: bool
  autoscaler :: bool
  workerID :: int
  activeWorkers :: int
  mainDone :: bool
  dequeued :: "path list"
  stdout :: "out list"

section \<open>Channel and wait-group operations\<close>

text \<open>\<^verbatim>\<open>jobs <- path\<close>: panics on a closed channel, waits while the buffer is full.\<close>

definition chan_send :: "chan \<Rightarrow> path \<Rightarrow> fault + chan" where
  "chan_send c v =
     (if closed c then Inl (Panic SendOnClosedChannel)
      else if length (buf c) < jobsCap then Inr (c\<lparr>buf := buf c @ [v]\<rparr>)
      else Inl Blocked)"

text \<open>\<^verbatim>\<open>path, ok := <-jobs\<close>: the oldest buffered value with \<open>ok = True\<close>; on a closed and
  empty channel the zero value with \<open>ok = False\<close>; otherwise the receiver waits.\<close>

definition chan_recv :: "chan \<Rightarrow> fault + ((path \<times> bool) \<times> chan)" where
  "chan_recv c =
     (case buf c of
        v # vs \<Rightarrow> Inr ((v, True), c\<lparr>buf := vs\<rparr>)
      | [] \<Rightarrow> if closed c then Inr (([], False), c) else Inl Blocked)"

text \<open>\<^verbatim>\<open>close(jobs)\<close>: panics on a channel that is closed already.\<close>

definition chan_close :: "chan \<Rightarrow> fault + chan" where
  "chan_close c =
     (if closed c then Inl (Panic CloseOfClosedChannel) else Inr (c\<lparr>closed := True\<rparr>))"

text \<open>\<^verbatim>\<open>wg.Add(1); go worker(ctx, id, ...)\<close>.\<close>

definition go_worker :: "int \<Rightarrow> state \<Rightarrow> state" where
  "go_worker i s = s\<lparr>wg := wg s + 1, workers := workers s @ [\<lparr>wid = i, wst = WSelect\<rparr>]\<rparr>"

text \<open>A worker returns: the deferred \<^verbatim>\<open>wg.Done()\<close> runs, which panics when the counter
  would become negative.\<close>

definition worker_return :: "nat \<Rightarrow> state \<Rightarrow> fault + state" where
  "worker_return i s =
     (if wg s - 1 < 0 then Inl (Panic NegativeWaitGroup)
      else Inr (s\<lparr>wg := wg s - 1,
                  workers := (workers s)[i := (workers s ! i)\<lparr>wst := WExited\<rparr>]\<rparr>))"

section \<open>The goroutines\<close>

subsection \<open>processFile\<close>

text \<open>The returned error (\<open>None\<close> is \<^verbatim>\<open>nil\<close>) and the lines printed.\<close>

definition processFile :: "filesystem \<Rightarrow> path \<Rightarrow> perror option \<times> out list" where
  "processFile fs p =
     (case fs p of
        Unopenable c \<Rightarrow> (Some (OpenError p c), [])
      | Unreadable c \<Rightarrow> (Some (HashError p c), [])
      | Readable h \<Rightarrow> (None, [OutProcessed p h]))"

subsection \<open>worker\<close>

definition worker_step :: "filesystem \<Rightarrow> nat \<Rightarrow> sel \<Rightarrow> state \<Rightarrow> fault + state" where
  "worker_step fs i c s =
     (if length (workers s) \<le> i then Inl Blocked
      else let w = workers s ! i in
        case wst w of
          WExited \<Rightarrow> Inl Blocked
        | WSelect \<Rightarrow>
            (case c of
               SelDone \<Rightarrow>
                 if cancelled s
                 then worker_return i (s\<lparr>stdout := stdout s @ [OutWorkerShutdown (wid w)]\<rparr>)
                 else Inl Blocked
             | SelWork \<Rightarrow>
                 (case chan_recv (jobs s) of
                    Inl f \<Rightarrow> Inl f
                  | Inr ((p, ok), ch) \<Rightarrow>
                      if \<not> ok then worker_return i (s\<lparr>jobs := ch\<rparr>)
                      else Inr (s\<lparr>jobs := ch, dequeued := dequeued s @ [p],
                                  workers := (workers s)[i := w\<lparr>wst := WProcessing p\<rparr>]\<rparr>)))
        | WProcessing p \<Rightarrow>
            (case processFile fs p of
               (Some err, ls) \<Rightarrow>
                 Inr (s\<lparr>stdout := stdout s @ ls,
                        metrics := (metrics s)\<lparr>failed := failed (metrics s) + 1\<rparr>,
                        workers := (workers s)[i := w\<lparr>wst := WLogging err\<rparr>]\<rparr>)
             | (None, ls) \<Rightarrow>
                 Inr (s\<lparr>stdout := stdout s @ ls,
                        metrics := (metrics s)\<lparr>processed := processed (metrics s) + 1\<rparr>,
                        workers := (workers s)[i := w\<lparr>wst := WSelect\<rparr>]\<rparr>))
        | WLogging err \<Rightarrow>
            Inr (s\<lparr>errors := errors s @ [err],
                   workers := (workers s)[i := w\<lparr>wst := WSelect\<rparr>]\<rparr>))"

subsection \<open>The traversal goroutine\<close>

text \<open>The callback given to \<^verbatim>\<open>filepath.Walk\<close>: its returned error and the new state.\<close>

definition walkFn :: "sel \<Rightarrow> walk_entry \<Rightarrow> state \<Rightarrow> fault + (walk_error option \<times> state)" where
  "walkFn c e s =
     (case e of
        EntryErr p m \<Rightarrow> Inr (None, s)
      | EntryDir p \<Rightarrow> Inr (None, s)
      | EntryFile p \<Rightarrow>
          (case c of
             SelWork \<Rightarrow>
               (case chan_send (jobs s) p of
                  Inl f \<Rightarrow> Inl f
                | Inr ch \<Rightarrow> Inr (None, s\<lparr>jobs := ch\<rparr>))
           | SelDone \<Rightarrow> if cancelled s then Inr (Some Canceled, s) else Inl Blocked))"

text \<open>\<^verbatim>\<open>filepath.Walk\<close> has returned \<open>err\<close>: the goroutine prints an error other than
  \<^verbatim>\<open>context.Canceled\<close>, and the deferred \<^verbatim>\<open>close(jobs)\<close> runs.\<close>

definition walk_return :: "walk_error option \<Rightarrow> state \<Rightarrow> fault + state" where
  "walk_return err s =
     (let s1 = (case err of
                  Some (WalkFailed m) \<Rightarrow> s\<lparr>stdout := stdout s @ [OutWalkError m]\<rparr>
                | _ \<Rightarrow> s)
      in case chan_close (jobs s1) of
           Inl f \<Rightarrow> Inl f
         | Inr ch \<Rightarrow> Inr (s1\<lparr>jobs := ch, producer := PExited\<rparr>))"

definition producer_step :: "sel \<Rightarrow> state \<Rightarrow> fault + state" where
  "producer_step c s =
     (if producer s \<noteq> PWalking then Inl Blocked
      else case pending s of
             [] \<Rightarrow> walk_return None s
           | e # es \<Rightarrow>
               (case walkFn c e s of
                  Inl f \<Rightarrow> Inl f
                | Inr (None, s1) \<Rightarrow> Inr (s1\<lparr>pending := es\<rparr>)
                | Inr (Some err, s1) \<Rightarrow> walk_return (Some err) s1))"

subsection \<open>metricsReporter\<close>

definition reporter_step :: "sel \<Rightarrow> state \<Rightarrow> fault + state" where
  "reporter_step c s =
     (if \<not> reporter s then Inl Blocked
      else case c of
             SelDone \<Rightarrow>
               if cancelled s
               then Inr (s\<lparr>reporter := False, stdout := stdout s @ [OutReporterShutdown]\<rparr>)
               else Inl Blocked
           | SelWork \<Rightarrow>
               Inr (s\<lparr>stdout := stdout s @
                      [OutMetrics (processed (metrics s)) (failed (metrics s))
                         (length (buf (jobs s)))]\<rparr>))"

subsection \<open>workerAutoscaler\<close>

definition maxWorkers :: int where
  "maxWorkers = 20"

definition minWorkers :: int where
  "minWorkers = 2"

text \<open>\<^verbatim>\<open>for i := 0; i < add && activeWorkers < maxWorkers; i++\<close>, the first argument being
  the iterations left, \<open>add - i\<close>.\<close>

fun scale_up :: "nat \<Rightarrow> state \<Rightarrow> state" where
  "scale_up 0 s = s"
| "scale_up (Suc k) s =
     (if activeWorkers s < maxWorkers
      then scale_up k
             ((go_worker (workerID s + 1) (s\<lparr>workerID := workerID s + 1\<rparr>))
                \<lparr>activeWorkers := activeWorkers s + 1,
                 stdout := stdout s @ [OutSpawned (workerID s + 1) (activeWorkers s + 1)]\<rparr>)
      else s)"

definition autoscaler_tick :: "state \<Rightarrow> state" where
  "autoscaler_tick s =
     (let queueLength = length (buf (jobs s));
          s1 = (if queueLength > 50 \<and> activeWorkers s < maxWorkers then scale_up 2 s else s)
      in if queueLength < 10 \<and> activeWorkers s1 > minWorkers
         then s1\<lparr>activeWorkers := activeWorkers s1 - 1,
                 stdout := stdout s1 @ [OutReducing (activeWorkers s1 - 1)]\<rparr>
         else s1)"

definition autoscaler_step :: "sel \<Rightarrow> state \<Rightarrow> fault + state" where
  "autoscaler_step c s =
     (if \<not> autoscaler s then Inl Blocked
      else case c of
             SelDone \<Rightarrow> if cancelled s then Inr (s\<lparr>autoscaler := False\<rparr>) else Inl Blocked
           | SelWork \<Rightarrow> Inr (autoscaler_tick s))"

subsection \<open>main and the signal handler\<close>

text \<open>The goroutine waiting on \<^verbatim>\<open>sigChan\<close>: the first signal cancels the context
  (nothing else does before \<^verbatim>\<open>main\<close> returns); the goroutine is gone after that, so a
  later signal is read by nobody and no step exists for it.\<close>

definition signal_step :: "state \<Rightarrow> fault + state" where
  "signal_step s =
     (if cancelled s then Inl Blocked
      else Inr (s\<lparr>cancelled := True, stdout := stdout s @ [OutSignal]\<rparr>))"

text \<open>The summary \<^verbatim>\<open>main\<close> prints after the join: the two counters and, when
  \<^verbatim>\<open>len(errors) > 0\<close>, every error in the order of the slice.\<close>

definition summary_lines :: "state \<Rightarrow> out list" where
  "summary_lines s =
     [OutComplete, OutFilesProcessed (processed (metrics s)), OutFilesFailed (failed (metrics s))] @
     (if length (errors s) > 0 then OutSomeErrors # map OutError (errors s) else [])"

text \<open>\<^verbatim>\<open>wg.Wait()\<close> returns when the counter is zero; \<^verbatim>\<open>main\<close> then prints the summary
  and returns, which ends the process (the deferred \<^verbatim>\<open>cancel()\<close> has no observer left). The
  lines from \<^verbatim>\<open>wg.Wait()\<close> to the end of \<^verbatim>\<open>main\<close> are one step.\<close>

definition main_join :: "state \<Rightarrow> fault + state" where
  "main_join s =
     (if wg s \<noteq> 0 then Inl Blocked
      else Inr (s\<lparr>mainDone := True, stdout := stdout s @ summary_lines s\<rparr>))"

text \<open>The initial worker pool: \<^verbatim>\<open>for i := 0; i < *workers; i++ { wg.Add(1); go worker(ctx, i, ...) }\<close>,
  the first argument being the iterations left and the second \<open>i\<close>.\<close>

fun start_pool :: "nat \<Rightarrow> int \<Rightarrow> state \<Rightarrow> state" where
  "start_pool 0 i s = s"
| "start_pool (Suc k) i s = start_pool k (i + 1) (go_worker i s)"

text \<open>The state once \<^verbatim>\<open>main\<close> has started every goroutine and reached \<^verbatim>\<open>wg.Wait()\<close>, for
  the flag \<^verbatim>\<open>-workers n\<close> and the sequence of callback calls the walk of \<^verbatim>\<open>-dir\<close> will
  make. Starting goroutines commutes with their steps, so no run is lost.\<close>

definition init :: "int \<Rightarrow> walk_entry list \<Rightarrow> state" where
  "init n walk =
     start_pool (nat n) 0
       \<lparr>cancelled = False, jobs = \<lparr>buf = [], closed = False\<rparr>, wg = 0,
        metrics = \<lparr>processed = 0, failed = 0\<rparr>, errors = [], pending = walk,
        producer = PWalking, workers = [], reporter = True, autoscaler = True,
        workerID = n, activeWorkers = n, mainDone = False, dequeued = [], stdout = []\<rparr>"

section \<open>Runs\<close>

text \<open>Once \<^verbatim>\<open>main\<close> has returned the process is gone and no goroutine runs.\<close>

definition step :: "filesystem \<Rightarrow> event \<Rightarrow> state \<Rightarrow> fault + state" where
  "step fs e s =
     (if mainDone s then Inl Blocked
      else case e of
             Signal \<Rightarrow> signal_step s
           | Producer c \<Rightarrow> producer_step c s
           | Worker i c \<Rightarrow> worker_step fs i c s
           | Reporter c \<Rightarrow> reporter_step c s
           | Autoscaler c \<Rightarrow> autoscaler_step c s
           | MainJoin \<Rightarrow> main_join s)"

fun exec :: "filesystem \<Rightarrow> event list \<Rightarrow> state \<Rightarrow> fault + state" where
  "exec fs [] s = Inr s"
| "exec fs (e # es) s = (case step fs e s of Inl f \<Rightarrow> Inl f | Inr s1 \<Rightarrow> exec fs es s1)"


section \<open>Auxiliary notions\<close>

text \<open>The number of workers the scale-up loop starts for \<open>k\<close> allowed iterations and a
  tracked count \<open>a\<close>, and the workers it starts after the identifier \<open>i\<close>.\<close>

definition spawn_count :: "nat \<Rightarrow> int \<Rightarrow> nat" where
  "spawn_count k a = min k (nat (maxWorkers - a))"

definition spawned :: "int \<Rightarrow> nat \<Rightarrow> worker list" where
  "spawned i m = map (\<lambda>j. \<lparr>wid = i + 1 + int j, wst = WSelect\<rparr>) [0..<m]"

text \<open>The workers \<^verbatim>\<open>main\<close> starts: \<open>k\<close> of them, numbered from \<open>i\<close>.\<close>

definition pool :: "int \<Rightarrow> nat \<Rightarrow> worker list" where
  "pool i k = map (\<lambda>j. \<lparr>wid = i + int j, wst = WSelect\<rparr>) [0..<k]"

text \<open>The paths the walk offers to the queue: those of its entries that carry no error and
  are no directory, in the order of the walk.\<close>

fun files :: "walk_entry list \<Rightarrow> path list" where
  "files [] = []"
| "files (EntryFile p # es) = p # files es"
| "files (e # es) = files es"

text \<open>A path is good when \<^verbatim>\<open>processFile\<close> returns \<^verbatim>\<open>nil\<close> for it.\<close>

definition good :: "filesystem \<Rightarrow> path \<Rightarrow> bool" where
  "good fs p \<longleftrightarrow> fst (processFile fs p) = None"

text \<open>Counting the workers whose position satisfies a predicate, as an integer next to the
  integer counters.\<close>

definition count_st :: "(wstate \<Rightarrow> bool) \<Rightarrow> worker list \<Rightarrow> int" where
  "count_st P ws = int (length (filter (\<lambda>w. P (wst w)) ws))"

fun is_running :: "wstate \<Rightarrow> bool" where
  "is_running WExited = False"
| "is_running st = True"

text \<open>A worker inside \<^verbatim>\<open>processFile\<close>.\<close>

fun is_processing :: "wstate \<Rightarrow> bool" where
  "is_processing (WProcessing p) = True"
| "is_processing st = False"

fun is_logging :: "wstate \<Rightarrow> bool" where
  "is_logging (WLogging e) = True"
| "is_logging st = False"

fun holds_good :: "filesystem \<Rightarrow> wstate \<Rightarrow> bool" where
  "holds_good fs (WProcessing p) = good fs p"
| "holds_good fs st = False"

fun holds_bad :: "filesystem \<Rightarrow> wstate \<Rightarrow> bool" where
  "holds_bad fs (WProcessing p) = (\<not> good fs p)"
| "holds_bad fs st = False"

definition running :: "worker list \<Rightarrow> int" where
  "running ws = count_st is_running ws"

text \<open>An error value is recorded rightly when it is what \<^verbatim>\<open>processFile\<close> returns for its
  own path and that path was received from the queue.\<close>

definition recorded :: "filesystem \<Rightarrow> path list \<Rightarrow> perror \<Rightarrow> bool" where
  "recorded fs dq e \<longleftrightarrow> perror_path e \<in> set dq \<and> fst (processFile fs (perror_path e)) = Some e"

fun held :: "filesystem \<Rightarrow> path list \<Rightarrow> wstate \<Rightarrow> bool" where
  "held fs dq (WProcessing p) = (p \<in> set dq)"
| "held fs dq (WLogging e) = recorded fs dq e"
| "held fs dq st = True"

text \<open>The path whose processing the event finishes in the state, if the event is the step
  of a worker that is inside \<^verbatim>\<open>processFile\<close>.\<close>

definition completes :: "state \<Rightarrow> event \<Rightarrow> path option" where
  "completes s e =
     (case e of
        Worker i c \<Rightarrow>
          if i < length (workers s)
          then (case wst (workers s ! i) of WProcessing p \<Rightarrow> Some p | _ \<Rightarrow> None)
          else None
      | _ \<Rightarrow> None)"

text \<open>What a run shows at its end: whether \<^verbatim>\<open>main\<close> has returned, whether the context
  is cancelled, the two counters, and where each worker stands.\<close>

definition observe :: "fault + state \<Rightarrow> (bool \<times> bool \<times> int \<times> int \<times> wstate list) option" where
  "observe r =
     (case r of
        Inl f \<Rightarrow> None
      | Inr s \<Rightarrow> Some (mainDone s, cancelled s, processed (metrics s), failed (metrics s),
                        map wst (workers s)))"



subsection \<open>Invariants of the reachable states\<close>

text \<open>The wait-group counter equals the number of workers that have not returned.\<close>

definition inv_wg :: "state \<Rightarrow> bool" where
  "inv_wg s \<longleftrightarrow> wg s = running (workers s)"

text \<open>The channel is closed exactly when the traversal goroutine has returned, and never
  holds more than its capacity.\<close>

definition inv_chan :: "state \<Rightarrow> bool" where
  "inv_chan s \<longleftrightarrow>
     (closed (jobs s) \<longleftrightarrow> producer s = PExited) \<and> length (buf (jobs s)) \<le> jobsCap"

text \<open>The files of the walk, in order, are those received so far, then those buffered,
  then those the walk has not reached.\<close>

definition inv_hist :: "walk_entry list \<Rightarrow> state \<Rightarrow> bool" where
  "inv_hist walk s \<longleftrightarrow> files walk = dequeued s @ buf (jobs s) @ files (pending s)"

text \<open>Without cancellation, the traversal returns only at the end of the walk, and a
  worker has returned only if the channel is closed and empty.\<close>

definition inv_drain :: "state \<Rightarrow> bool" where
  "inv_drain s \<longleftrightarrow>
     (\<not> cancelled s \<longrightarrow>
        (producer s = PExited \<longrightarrow> pending s = []) \<and>
        (running (workers s) < int (length (workers s)) \<longrightarrow>
           closed (jobs s) \<and> buf (jobs s) = []))"

text \<open>Every received path is counted once or still being processed; every counted failure
  is logged or about to be.\<close>

definition inv_count :: "filesystem \<Rightarrow> state \<Rightarrow> bool" where
  "inv_count fs s \<longleftrightarrow>
     processed (metrics s) + count_st (holds_good fs) (workers s) =
       int (length (filter (good fs) (dequeued s))) \<and>
     failed (metrics s) + count_st (holds_bad fs) (workers s) =
       int (length (filter (\<lambda>p. \<not> good fs p) (dequeued s))) \<and>
     failed (metrics s) = int (length (errors s)) + count_st is_logging (workers s)"

text \<open>Every logged error and every path or error in the hands of a worker comes from a
  received path.\<close>

definition inv_err :: "filesystem \<Rightarrow> state \<Rightarrow> bool" where
  "inv_err fs s \<longleftrightarrow>
     (\<forall>e \<in> set (errors s). recorded fs (dequeued s) e) \<and>
     (\<forall>w \<in> set (workers s). held fs (dequeued s) (wst w))"

text \<open>Once \<^verbatim>\<open>main\<close> has returned, the wait-group counter is zero and the output ends with
  the summary.\<close>

definition inv_main :: "state \<Rightarrow> bool" where
  "inv_main s \<longleftrightarrow>
     (mainDone s \<longrightarrow> wg s = 0 \<and> (\<exists>pre. stdout s = pre @ summary_lines s))"

definition inv :: "filesystem \<Rightarrow> walk_entry list \<Rightarrow> state \<Rightarrow> bool" where
  "inv fs walk s \<longleftrightarrow>
     inv_wg s \<and> inv_chan s \<and> inv_hist walk s \<and> inv_drain s \<and> inv_count fs s \<and>
     inv_err fs s \<and> inv_main s"


subsection \<open>Example inputs\<close>

text \<open>A file system in which \<open>locked\<close> cannot be opened, \<open>torn\<close> cannot be read and every
  other path is hashed.\<close>

definition fs_demo :: filesystem where
  "fs_demo p =
     (if p = ''locked'' then Unopenable ''permission denied''
      else if p = ''torn'' then Unreadable ''input/output error''
      else Readable ''e3b0c442'')"

text \<open>The traversal takes \<open>k\<close> steps, sending where it stands at its \<^verbatim>\<open>select\<close>; a walk of
  \<open>k\<close> files.\<close>

definition sched_fill :: "nat \<Rightarrow> event list" where
  "sched_fill k = replicate k (Producer SelWork)"

definition walk_files :: "nat \<Rightarrow> walk_entry list" where
  "walk_files k = replicate k (EntryFile ''f'')"

text \<open>Two files are sent and the one worker receives the first.\<close>

definition sched_one :: "event list" where
  "sched_one = [Producer SelWork, Producer SelWork, Worker 0 SelWork]"





text \<open>A complete run of one worker over a walk whose first callback carries an error.\<close>

definition walk_errored :: "walk_entry list" where
  "walk_errored =
     [EntryErr ''x'' ''permission denied'', EntryDir ''d'', EntryFile ''locked'', EntryFile ''f'']"

definition sched_errored :: "event list" where
  "sched_errored =
     [Producer SelWork, Producer SelWork, Producer SelWork, Producer SelWork, Producer SelWork,
      Worker 0 SelWork, Worker 0 SelWork, Worker 0 SelWork,
      Worker 0 SelWork, Worker 0 SelWork,
      Worker 0 SelWork, MainJoin]"

text \<open>A tick on the empty queue, 51 sends, a second tick.\<close>

definition sched_overshoot :: "event list" where
  "sched_overshoot = Autoscaler SelWork # sched_fill 51 @ [Autoscaler SelWork]"

text \<open>One file is sent, the queue is closed, the first worker receives the file and the
  second worker finds the queue closed and empty.\<close>

definition sched_early_exit :: "event list" where
  "sched_early_exit = [Producer SelWork, Producer SelWork, Worker 0 SelWork, Worker 1 SelWork]"


section \<open>The autoscaler\<close>

lemma spawned_step: "\<lparr>wid = i + 1, wst = WSelect\<rparr> # spawned (i + 1) m = spawned i (Suc m)"
  unfolding spawned_def
  by (simp add: upt_rec [of 0 "Suc m"] map_Suc_upt [symmetric] del: upt_Suc)

lemma spawn_count_Suc:
  "a < maxWorkers \<Longrightarrow> spawn_count (Suc k) a = Suc (spawn_count k (a + 1))"
  by (simp add: spawn_count_def min_def) linarith

lemma spawn_count_two: "a < maxWorkers \<Longrightarrow> spawn_count 2 a = nat (min 2 (maxWorkers - a))"
  by (simp add: spawn_count_def min_def) linarith

lemma scale_up_frame:
  "cancelled (scale_up k s) = cancelled s \<and> jobs (scale_up k s) = jobs s \<and>
   metrics (scale_up k s) = metrics s \<and> errors (scale_up k s) = errors s \<and>
   pending (scale_up k s) = pending s \<and> producer (scale_up k s) = producer s \<and>
   reporter (scale_up k s) = reporter s \<and> autoscaler (scale_up k s) = autoscaler s \<and>
   mainDone (scale_up k s) = mainDone s \<and> dequeued (scale_up k s) = dequeued s"
  by (induction k arbitrary: s) (simp_all add: go_worker_def)

lemma scale_up_workers:
  "workers (scale_up k s) = workers s @ spawned (workerID s) (spawn_count k (activeWorkers s))"
proof (induction k arbitrary: s)
  case 0
  show ?case by (simp add: spawn_count_def spawned_def)
next
  case (Suc k)
  show ?case
  proof (cases "activeWorkers s < maxWorkers")
    case True
    show ?thesis using True
      by (simp add: Suc.IH go_worker_def spawned_step [symmetric] spawn_count_Suc)
  next
    case False
    then show ?thesis by (simp add: spawn_count_def spawned_def)
  qed
qed

lemma scale_up_counters:
  "wg (scale_up k s) = wg s + int (spawn_count k (activeWorkers s)) \<and>
   activeWorkers (scale_up k s) = activeWorkers s + int (spawn_count k (activeWorkers s)) \<and>
   workerID (scale_up k s) = workerID s + int (spawn_count k (activeWorkers s))"
proof (induction k arbitrary: s)
  case 0
  show ?case by (simp add: spawn_count_def)
next
  case (Suc k)
  show ?case
  proof (cases "activeWorkers s < maxWorkers")
    case True
    show ?thesis using True
      by (simp add: Suc.IH go_worker_def spawn_count_Suc)
  next
    case False
    then show ?thesis by (simp add: spawn_count_def)
  qed
qed

lemma autoscaler_tick_up:
  assumes "50 < length (buf (jobs s))" and "activeWorkers s < maxWorkers"
  shows "autoscaler_tick s = scale_up 2 s"
  using assms scale_up_frame [of 2 s] by (simp add: autoscaler_tick_def Let_def)

lemma autoscaler_tick_bound:
  "activeWorkers (autoscaler_tick s) \<le> max (activeWorkers s) maxWorkers"
proof -
  have "activeWorkers (scale_up 2 s) \<le> max (activeWorkers s) maxWorkers"
    using scale_up_counters [of 2 s] by (simp add: spawn_count_def min_def max_def) linarith
  then show ?thesis
    by (auto simp: autoscaler_tick_def Let_def max_def split: if_splits)
qed

text \<open>
  Claim C2. On a tick of the running autoscaler (the process alive), the step is always
  enabled. If the sampled queue length is above 50 and the tracked count \<open>activeWorkers\<close> is
  below \<open>maxWorkers = 20\<close>, exactly \<open>min 2 (20 - activeWorkers)\<close> workers are started: they
  are appended to the worker list at their \<^verbatim>\<open>select\<close>, with the identifiers following
  \<open>workerID\<close>, the shared wait-group counter grows by that number and so does the tracked
  count. Whatever the queue length, a tick leaves the tracked count at or below the larger
  of its old value and \<open>maxWorkers\<close>: it is never raised past \<open>maxWorkers\<close>.
\<close>

theorem scale_up_rule:
  assumes "autoscaler s" and "\<not> mainDone s"
  shows "\<exists>s1. step fs (Autoscaler SelWork) s = Inr s1 \<and>
    (50 < length (buf (jobs s)) \<and> activeWorkers s < maxWorkers \<longrightarrow>
       workers s1 = workers s @ spawned (workerID s) (nat (min 2 (maxWorkers - activeWorkers s))) \<and>
       wg s1 = wg s + min 2 (maxWorkers - activeWorkers s) \<and>
       activeWorkers s1 = activeWorkers s + min 2 (maxWorkers - activeWorkers s)) \<and>
    activeWorkers s1 \<le> max (activeWorkers s) maxWorkers"
proof -
  have st: "step fs (Autoscaler SelWork) s = Inr (autoscaler_tick s)"
    using assms by (simp add: step_def autoscaler_step_def)
  have up: "workers (autoscaler_tick s) =
        workers s @ spawned (workerID s) (nat (min 2 (maxWorkers - activeWorkers s))) \<and>
      wg (autoscaler_tick s) = wg s + min 2 (maxWorkers - activeWorkers s) \<and>
      activeWorkers (autoscaler_tick s) = activeWorkers s + min 2 (maxWorkers - activeWorkers s)"
    if h: "50 < length (buf (jobs s))" "activeWorkers s < maxWorkers"
  proof -
    have m: "int (spawn_count 2 (activeWorkers s)) = min 2 (maxWorkers - activeWorkers s)"
      using h(2) by (simp add: spawn_count_two)
    show ?thesis
      using scale_up_workers [of 2 s] scale_up_counters [of 2 s] m h
      by (simp add: autoscaler_tick_up spawn_count_two)
  qed
  show ?thesis
    using st up autoscaler_tick_bound [of s] by blast
qed

text \<open>The scenario of the specification: 60 buffered jobs and a pool of 5 give 2 more
  workers and a tracked count of 7.\<close>

theorem scale_up_rule_witness:
  "\<exists>s s1. exec fs_demo (sched_fill 60) (init 5 (walk_files 60)) = Inr s \<and>
     length (buf (jobs s)) = 60 \<and> activeWorkers s = 5 \<and>
     step fs_demo (Autoscaler SelWork) s = Inr s1 \<and>
     length (workers s1) = length (workers s) + 2 \<and> wg s1 = wg s + 2 \<and> activeWorkers s1 = 7"
proof -
  have "case exec fs_demo (sched_fill 60) (init 5 (walk_files 60)) of
          Inl f \<Rightarrow> False
        | Inr s \<Rightarrow> autoscaler s \<and> \<not> mainDone s \<and> length (buf (jobs s)) = 60 \<and> activeWorkers s = 5"
    by code_simp
  then obtain s where s: "exec fs_demo (sched_fill 60) (init 5 (walk_files 60)) = Inr s"
      "autoscaler s" "\<not> mainDone s" "length (buf (jobs s)) = 60" "activeWorkers s = 5"
    by (auto split: sum.splits)
  from scale_up_rule [OF s(2,3), of fs_demo] s(4,5) obtain s1 where
    "step fs_demo (Autoscaler SelWork) s = Inr s1"
    "workers s1 = workers s @ spawned (workerID s) (nat (min 2 (maxWorkers - 5)))"
    "wg s1 = wg s + min 2 (maxWorkers - 5)" "activeWorkers s1 = 5 + min 2 (maxWorkers - 5)"
    by (auto simp: maxWorkers_def)
  then show ?thesis using s
    by (auto simp: maxWorkers_def spawned_def)
qed

text \<open>
  Claim C3. On a tick of the running autoscaler, if the sampled queue length is below 10
  and the tracked count is above \<open>minWorkers = 2\<close>, the tracked count drops by exactly one
  while the worker list (every worker and where it stands), the wait-group counter, the
  queue and the cancellation flag stay as they were: no worker is stopped. Whenever a tick
  lowers the tracked count, the new count is still at least \<open>minWorkers\<close> and the workers
  are unchanged.
\<close>

theorem scale_down_rule:
  assumes "autoscaler s" and "\<not> mainDone s"
  shows "\<exists>s1. step fs (Autoscaler SelWork) s = Inr s1 \<and>
    (length (buf (jobs s)) < 10 \<and> minWorkers < activeWorkers s \<longrightarrow>
       activeWorkers s1 = activeWorkers s - 1 \<and> workers s1 = workers s \<and> wg s1 = wg s \<and>
       jobs s1 = jobs s \<and> cancelled s1 = cancelled s) \<and>
    (activeWorkers s1 < activeWorkers s \<longrightarrow>
       minWorkers \<le> activeWorkers s1 \<and> workers s1 = workers s \<and> wg s1 = wg s)"
proof -
  have st: "step fs (Autoscaler SelWork) s = Inr (autoscaler_tick s)"
    using assms by (simp add: step_def autoscaler_step_def)
  have a: "activeWorkers s \<le> activeWorkers (scale_up 2 s)"
    using scale_up_counters [of 2 s] by simp
  have "(length (buf (jobs s)) < 10 \<and> minWorkers < activeWorkers s \<longrightarrow>
       activeWorkers (autoscaler_tick s) = activeWorkers s - 1 \<and>
       workers (autoscaler_tick s) = workers s \<and> wg (autoscaler_tick s) = wg s \<and>
       jobs (autoscaler_tick s) = jobs s \<and> cancelled (autoscaler_tick s) = cancelled s)"
    by (simp add: autoscaler_tick_def Let_def)
  moreover have "activeWorkers (autoscaler_tick s) < activeWorkers s \<longrightarrow>
       minWorkers \<le> activeWorkers (autoscaler_tick s) \<and> workers (autoscaler_tick s) = workers s \<and>
       wg (autoscaler_tick s) = wg s"
    using a by (auto simp: autoscaler_tick_def Let_def split: if_splits)
  ultimately show ?thesis using st by blast
qed

text \<open>The scenario of the specification: 5 buffered jobs and a pool of 4 give a tracked
  count of 3 and the same workers.\<close>

theorem scale_down_rule_witness:
  "\<exists>s s1. exec fs_demo (sched_fill 5) (init 4 (walk_files 5)) = Inr s \<and>
     length (buf (jobs s)) = 5 \<and> activeWorkers s = 4 \<and>
     step fs_demo (Autoscaler SelWork) s = Inr s1 \<and>
     activeWorkers s1 = 3 \<and> workers s1 = workers s \<and> wg s1 = wg s"
proof -
  have "case exec fs_demo (sched_fill 5) (init 4 (walk_files 5)) of
          Inl f \<Rightarrow> False
        | Inr s \<Rightarrow> autoscaler s \<and> \<not> mainDone s \<and> length (buf (jobs s)) = 5 \<and> activeWorkers s = 4"
    by code_simp
  then obtain s where s: "exec fs_demo (sched_fill 5) (init 4 (walk_files 5)) = Inr s"
      "autoscaler s" "\<not> mainDone s" "length (buf (jobs s)) = 5" "activeWorkers s = 4"
    by (auto split: sum.splits)
  from scale_down_rule [OF s(2,3), of fs_demo] s(4,5) obtain s1 where
    "step fs_demo (Autoscaler SelWork) s = Inr s1"
    "activeWorkers s1 = 3" "workers s1 = workers s" "wg s1 = wg s"
    by (auto simp: minWorkers_def)
  then show ?thesis using s by auto
qed

section \<open>The steps of each goroutine\<close>

lemma signal_step_cases [consumes 1, case_names sig_first]:
  assumes "signal_step s = Inr s1"
  obtains "\<not> cancelled s" "s1 = s\<lparr>cancelled := True, stdout := stdout s @ [OutSignal]\<rparr>"
proof (cases "cancelled s")
  case True
  with assms show thesis by (simp add: signal_step_def)
next
  case False
  then have "signal_step s = Inr (s\<lparr>cancelled := True, stdout := stdout s @ [OutSignal]\<rparr>)"
    by (simp add: signal_step_def)
  with assms that False show thesis by simp
qed

lemma walk_return_eq:
  assumes "err = None \<or> err = Some Canceled"
  shows "walk_return err s =
     (if closed (jobs s) then Inl (Panic CloseOfClosedChannel)
      else Inr (s\<lparr>jobs := (jobs s)\<lparr>closed := True\<rparr>, producer := PExited\<rparr>))"
  using assms by (auto simp: walk_return_def chan_close_def)

lemma producer_step_finish:
  assumes "producer s = PWalking" and "pending s = []"
  shows "producer_step c s =
     (if closed (jobs s) then Inl (Panic CloseOfClosedChannel)
      else Inr (s\<lparr>jobs := (jobs s)\<lparr>closed := True\<rparr>, producer := PExited\<rparr>))"
  using assms by (simp add: producer_step_def walk_return_eq)

lemma producer_step_skip:
  assumes "producer s = PWalking" and "pending s = e # es" and "\<forall>p. e \<noteq> EntryFile p"
  shows "producer_step c s = Inr (s\<lparr>pending := es\<rparr>)"
  using assms by (cases e) (simp_all add: producer_step_def walkFn_def)

lemma producer_step_send:
  assumes "producer s = PWalking" and "pending s = EntryFile p # es"
  shows "producer_step SelWork s =
     (if closed (jobs s) then Inl (Panic SendOnClosedChannel)
      else if length (buf (jobs s)) < jobsCap
        then Inr (s\<lparr>jobs := (jobs s)\<lparr>buf := buf (jobs s) @ [p]\<rparr>, pending := es\<rparr>)
      else Inl Blocked)"
  using assms by (simp add: producer_step_def walkFn_def chan_send_def)

lemma producer_step_cancel:
  assumes "producer s = PWalking" and "pending s = EntryFile p # es"
  shows "producer_step SelDone s =
     (if \<not> cancelled s then Inl Blocked
      else if closed (jobs s) then Inl (Panic CloseOfClosedChannel)
      else Inr (s\<lparr>jobs := (jobs s)\<lparr>closed := True\<rparr>, producer := PExited\<rparr>))"
  using assms by (simp add: producer_step_def walkFn_def walk_return_eq)

lemma producer_step_exited: "producer s \<noteq> PWalking \<Longrightarrow> producer_step c s = Inl Blocked"
  by (simp add: producer_step_def)

lemma producer_step_cases [consumes 1, case_names p_finish p_skip p_send p_cancel]:
  assumes "producer_step c s = Inr s1"
  obtains "producer s = PWalking" "pending s = []" "\<not> closed (jobs s)"
      "s1 = s\<lparr>jobs := (jobs s)\<lparr>closed := True\<rparr>, producer := PExited\<rparr>"
  | e es where "producer s = PWalking" "pending s = e # es" "\<forall>p. e \<noteq> EntryFile p"
      "s1 = s\<lparr>pending := es\<rparr>"
  | p es where "producer s = PWalking" "pending s = EntryFile p # es" "c = SelWork"
      "\<not> closed (jobs s)" "length (buf (jobs s)) < jobsCap"
      "s1 = s\<lparr>jobs := (jobs s)\<lparr>buf := buf (jobs s) @ [p]\<rparr>, pending := es\<rparr>"
  | p es where "producer s = PWalking" "pending s = EntryFile p # es" "c = SelDone"
      "cancelled s" "\<not> closed (jobs s)"
      "s1 = s\<lparr>jobs := (jobs s)\<lparr>closed := True\<rparr>, producer := PExited\<rparr>"
proof -
  from assms have w: "producer s = PWalking"
    using producer_step_exited [of s c] by auto
  show thesis
  proof (cases "pending s")
    case Nil
    from assms producer_step_finish [OF w Nil, of c] that(1) w Nil show thesis
      by (simp split: if_splits)
  next
    case (Cons e es)
    show thesis
    proof (cases "\<exists>p. e = EntryFile p")
      case False
      then have "\<forall>p. e \<noteq> EntryFile p" by simp
      from assms producer_step_skip [OF w Cons this, of c] that(2) w Cons this show thesis
        by simp
    next
      case True
      then obtain p where p: "pending s = EntryFile p # es" using Cons by auto
      show thesis
      proof (cases c)
        case SelWork
        from assms producer_step_send [OF w p] that(3) w p SelWork show thesis
          by (simp split: if_splits)
      next
        case SelDone
        from assms producer_step_cancel [OF w p] that(4) w p SelDone show thesis
          by (simp split: if_splits)
      qed
    qed
  qed
qed

lemma worker_return_eq:
  "worker_return i s =
     (if wg s \<le> 0 then Inl (Panic NegativeWaitGroup)
      else Inr (s\<lparr>wg := wg s - 1,
                  workers := (workers s)[i := (workers s ! i)\<lparr>wst := WExited\<rparr>]\<rparr>))"
  by (simp add: worker_return_def)

lemma worker_step_none: "length (workers s) \<le> i \<Longrightarrow> worker_step fs i c s = Inl Blocked"
  by (simp add: worker_step_def)

lemma worker_step_exited:
  "i < length (workers s) \<Longrightarrow> wst (workers s ! i) = WExited \<Longrightarrow>
   worker_step fs i c s = Inl Blocked"
  by (simp add: worker_step_def)

lemma worker_step_cancel:
  assumes "i < length (workers s)" and "wst (workers s ! i) = WSelect"
  shows "worker_step fs i SelDone s =
     (if \<not> cancelled s then Inl Blocked
      else if wg s \<le> 0 then Inl (Panic NegativeWaitGroup)
      else Inr (s\<lparr>stdout := stdout s @ [OutWorkerShutdown (wid (workers s ! i))],
                  wg := wg s - 1,
                  workers := (workers s)[i := (workers s ! i)\<lparr>wst := WExited\<rparr>]\<rparr>))"
  using assms by (simp add: worker_step_def worker_return_eq)

lemma worker_step_recv:
  assumes "i < length (workers s)" and "wst (workers s ! i) = WSelect"
  shows "worker_step fs i SelWork s =
     (case buf (jobs s) of
        p # ps \<Rightarrow>
          Inr (s\<lparr>jobs := (jobs s)\<lparr>buf := ps\<rparr>, dequeued := dequeued s @ [p],
                 workers := (workers s)[i := (workers s ! i)\<lparr>wst := WProcessing p\<rparr>]\<rparr>)
      | [] \<Rightarrow>
          if \<not> closed (jobs s) then Inl Blocked
          else if wg s \<le> 0 then Inl (Panic NegativeWaitGroup)
          else Inr (s\<lparr>wg := wg s - 1,
                      workers := (workers s)[i := (workers s ! i)\<lparr>wst := WExited\<rparr>]\<rparr>))"
  using assms by (simp add: worker_step_def worker_return_eq chan_recv_def split: list.splits)

lemma worker_step_ok:
  assumes "i < length (workers s)" and "wst (workers s ! i) = WProcessing p"
    and "processFile fs p = (None, ls)"
  shows "worker_step fs i c s =
     Inr (s\<lparr>stdout := stdout s @ ls,
            metrics := (metrics s)\<lparr>processed := processed (metrics s) + 1\<rparr>,
            workers := (workers s)[i := (workers s ! i)\<lparr>wst := WSelect\<rparr>]\<rparr>)"
  using assms by (simp add: worker_step_def Let_def)

lemma worker_step_bad:
  assumes "i < length (workers s)" and "wst (workers s ! i) = WProcessing p"
    and "processFile fs p = (Some err, ls)"
  shows "worker_step fs i c s =
     Inr (s\<lparr>stdout := stdout s @ ls,
            metrics := (metrics s)\<lparr>failed := failed (metrics s) + 1\<rparr>,
            workers := (workers s)[i := (workers s ! i)\<lparr>wst := WLogging err\<rparr>]\<rparr>)"
  using assms by (simp add: worker_step_def Let_def)

lemma worker_step_log:
  assumes "i < length (workers s)" and "wst (workers s ! i) = WLogging err"
  shows "worker_step fs i c s =
     Inr (s\<lparr>errors := errors s @ [err],
            workers := (workers s)[i := (workers s ! i)\<lparr>wst := WSelect\<rparr>]\<rparr>)"
  using assms by (simp add: worker_step_def Let_def)

lemma worker_step_cases
  [consumes 1, case_names w_cancel w_closed w_recv w_ok w_bad w_log]:
  assumes "worker_step fs i c s = Inr s1"
  obtains "i < length (workers s)" "wst (workers s ! i) = WSelect" "c = SelDone" "cancelled s"
      "0 < wg s"
      "s1 = s\<lparr>stdout := stdout s @ [OutWorkerShutdown (wid (workers s ! i))], wg := wg s - 1,
               workers := (workers s)[i := (workers s ! i)\<lparr>wst := WExited\<rparr>]\<rparr>"
  | "i < length (workers s)" "wst (workers s ! i) = WSelect" "c = SelWork"
      "buf (jobs s) = []" "closed (jobs s)" "0 < wg s"
      "s1 = s\<lparr>wg := wg s - 1,
               workers := (workers s)[i := (workers s ! i)\<lparr>wst := WExited\<rparr>]\<rparr>"
  | p ps where "i < length (workers s)" "wst (workers s ! i) = WSelect" "c = SelWork"
      "buf (jobs s) = p # ps"
      "s1 = s\<lparr>jobs := (jobs s)\<lparr>buf := ps\<rparr>, dequeued := dequeued s @ [p],
               workers := (workers s)[i := (workers s ! i)\<lparr>wst := WProcessing p\<rparr>]\<rparr>"
  | p ls where "i < length (workers s)" "wst (workers s ! i) = WProcessing p"
      "processFile fs p = (None, ls)"
      "s1 = s\<lparr>stdout := stdout s @ ls,
               metrics := (metrics s)\<lparr>processed := processed (metrics s) + 1\<rparr>,
               workers := (workers s)[i := (workers s ! i)\<lparr>wst := WSelect\<rparr>]\<rparr>"
  | p err ls where "i < length (workers s)" "wst (workers s ! i) = WProcessing p"
      "processFile fs p = (Some err, ls)"
      "s1 = s\<lparr>stdout := stdout s @ ls,
               metrics := (metrics s)\<lparr>failed := failed (metrics s) + 1\<rparr>,
               workers := (workers s)[i := (workers s ! i)\<lparr>wst := WLogging err\<rparr>]\<rparr>"
  | err where "i < length (workers s)" "wst (workers s ! i) = WLogging err"
      "s1 = s\<lparr>errors := errors s @ [err],
               workers := (workers s)[i := (workers s ! i)\<lparr>wst := WSelect\<rparr>]\<rparr>"
proof -
  from assms have i: "i < length (workers s)"
    using worker_step_none [of s i fs c] by (cases "i < length (workers s)") auto
  show thesis
  proof (cases "wst (workers s ! i)")
    case WExited
    with assms i worker_step_exited [of i s fs c] show thesis by simp
  next
    case (WLogging err)
    from assms worker_step_log [OF i WLogging, of fs c] that(6) i WLogging show thesis by simp
  next
    case (WProcessing p)
    obtain r ls where pf: "processFile fs p = (r, ls)" by (cases "processFile fs p")
    show thesis
    proof (cases r)
      case None
      with pf have pf1: "processFile fs p = (None, ls)" by simp
      from assms worker_step_ok [OF i WProcessing pf1, of c] that(4) i WProcessing pf1
      show thesis by simp
    next
      case (Some err)
      with pf have pf1: "processFile fs p = (Some err, ls)" by simp
      from assms worker_step_bad [OF i WProcessing pf1, of c] that(5) i WProcessing pf1
      show thesis by simp
    qed
  next
    case WSelect
    show thesis
    proof (cases c)
      case SelDone
      from assms worker_step_cancel [OF i WSelect, of fs] that(1) i WSelect SelDone
      show thesis by (simp split: if_splits)
    next
      case SelWork
      show thesis
      proof (cases "buf (jobs s)")
        case Nil
        from assms worker_step_recv [OF i WSelect, of fs] that(2) i WSelect SelWork Nil
        show thesis by (simp split: if_splits)
      next
        case (Cons p ps)
        from assms worker_step_recv [OF i WSelect, of fs] that(3) i WSelect SelWork Cons
        show thesis by simp
      qed
    qed
  qed
qed

lemma reporter_step_cases [consumes 1, case_names r_tick r_exit]:
  assumes "reporter_step c s = Inr s1"
  obtains "reporter s" "c = SelWork"
     "s1 = s\<lparr>stdout := stdout s @
         [OutMetrics (processed (metrics s)) (failed (metrics s)) (length (buf (jobs s)))]\<rparr>"
  | "reporter s" "c = SelDone" "cancelled s"
     "s1 = s\<lparr>reporter := False, stdout := stdout s @ [OutReporterShutdown]\<rparr>"
proof (cases c)
  case SelWork
  with assms that(1) show thesis by (simp add: reporter_step_def split: if_splits)
next
  case SelDone
  with assms that(2) show thesis by (simp add: reporter_step_def split: if_splits)
qed

lemma autoscaler_step_cases [consumes 1, case_names a_tick a_exit]:
  assumes "autoscaler_step c s = Inr s1"
  obtains "autoscaler s" "c = SelWork" "s1 = autoscaler_tick s"
  | "autoscaler s" "c = SelDone" "cancelled s" "s1 = s\<lparr>autoscaler := False\<rparr>"
proof (cases c)
  case SelWork
  with assms that(1) show thesis by (simp add: autoscaler_step_def split: if_splits)
next
  case SelDone
  with assms that(2) show thesis by (simp add: autoscaler_step_def split: if_splits)
qed

lemma main_join_cases [consumes 1, case_names m_join]:
  assumes "main_join s = Inr s1"
  obtains "wg s = 0" "s1 = s\<lparr>mainDone := True, stdout := stdout s @ summary_lines s\<rparr>"
proof (cases "wg s = 0")
  case True
  then have "main_join s = Inr (s\<lparr>mainDone := True, stdout := stdout s @ summary_lines s\<rparr>)"
    by (simp add: main_join_def summary_lines_def)
  with assms that True show thesis by simp
next
  case False
  with assms show thesis by (simp add: main_join_def)
qed

lemma step_cases [consumes 1, case_names sig_first p_finish p_skip p_send p_cancel
    w_cancel w_closed w_recv w_ok w_bad w_log r_tick r_exit a_tick a_exit m_join]:
  assumes "step fs e s = Inr s1"
  obtains "\<not> mainDone s" "e = Signal" "\<not> cancelled s"
      "s1 = s\<lparr>cancelled := True, stdout := stdout s @ [OutSignal]\<rparr>"
  | c where "\<not> mainDone s" "e = Producer c"
      "producer s = PWalking" "pending s = []" "\<not> closed (jobs s)"
      "s1 = s\<lparr>jobs := (jobs s)\<lparr>closed := True\<rparr>, producer := PExited\<rparr>"
  | c x es where "\<not> mainDone s" "e = Producer c"
      "producer s = PWalking" "pending s = x # es" "\<forall>p. x \<noteq> EntryFile p"
      "s1 = s\<lparr>pending := es\<rparr>"
  | p es where "\<not> mainDone s" "e = Producer SelWork"
      "producer s = PWalking" "pending s = EntryFile p # es"
      "\<not> closed (jobs s)" "length (buf (jobs s)) < jobsCap"
      "s1 = s\<lparr>jobs := (jobs s)\<lparr>buf := buf (jobs s) @ [p]\<rparr>, pending := es\<rparr>"
  | p es where "\<not> mainDone s" "e = Producer SelDone"
      "producer s = PWalking" "pending s = EntryFile p # es"
      "cancelled s" "\<not> closed (jobs s)"
      "s1 = s\<lparr>jobs := (jobs s)\<lparr>closed := True\<rparr>, producer := PExited\<rparr>"
  | i where "\<not> mainDone s" "e = Worker i SelDone"
      "i < length (workers s)" "wst (workers s ! i) = WSelect" "cancelled s" "0 < wg s"
      "s1 = s\<lparr>stdout := stdout s @ [OutWorkerShutdown (wid (workers s ! i))], wg := wg s - 1,
               workers := (workers s)[i := (workers s ! i)\<lparr>wst := WExited\<rparr>]\<rparr>"
  | i where "\<not> mainDone s" "e = Worker i SelWork"
      "i < length (workers s)" "wst (workers s ! i) = WSelect"
      "buf (jobs s) = []" "closed (jobs s)" "0 < wg s"
      "s1 = s\<lparr>wg := wg s - 1,
               workers := (workers s)[i := (workers s ! i)\<lparr>wst := WExited\<rparr>]\<rparr>"
  | i p ps where "\<not> mainDone s" "e = Worker i SelWork"
      "i < length (workers s)" "wst (workers s ! i) = WSelect" "buf (jobs s) = p # ps"
      "s1 = s\<lparr>jobs := (jobs s)\<lparr>buf := ps\<rparr>, dequeued := dequeued s @ [p],
               workers := (workers s)[i := (workers s ! i)\<lparr>wst := WProcessing p\<rparr>]\<rparr>"
  | i c p ls where "\<not> mainDone s" "e = Worker i c"
      "i < length (workers s)" "wst (workers s ! i) = WProcessing p"
      "processFile fs p = (None, ls)"
      "s1 = s\<lparr>stdout := stdout s @ ls,
               metrics := (metrics s)\<lparr>processed := processed (metrics s) + 1\<rparr>,
               workers := (workers s)[i := (workers s ! i)\<lparr>wst := WSelect\<rparr>]\<rparr>"
  | i c p err ls where "\<not> mainDone s" "e = Worker i c"
      "i < length (workers s)" "wst (workers s ! i) = WProcessing p"
      "processFile fs p = (Some err, ls)"
      "s1 = s\<lparr>stdout := stdout s @ ls,
               metrics := (metrics s)\<lparr>failed := failed (metrics s) + 1\<rparr>,
               workers := (workers s)[i := (workers s ! i)\<lparr>wst := WLogging err\<rparr>]\<rparr>"
  | i c err where "\<not> mainDone s" "e = Worker i c"
      "i < length (workers s)" "wst (workers s ! i) = WLogging err"
      "s1 = s\<lparr>errors := errors s @ [err],
               workers := (workers s)[i := (workers s ! i)\<lparr>wst := WSelect\<rparr>]\<rparr>"
  | "\<not> mainDone s" "e = Reporter SelWork" "reporter s"
      "s1 = s\<lparr>stdout := stdout s @
         [OutMetrics (processed (metrics s)) (failed (metrics s)) (length (buf (jobs s)))]\<rparr>"
  | "\<not> mainDone s" "e = Reporter SelDone" "reporter s" "cancelled s"
      "s1 = s\<lparr>reporter := False, stdout := stdout s @ [OutReporterShutdown]\<rparr>"
  | "\<not> mainDone s" "e = Autoscaler SelWork" "autoscaler s" "s1 = autoscaler_tick s"
  | "\<not> mainDone s" "e = Autoscaler SelDone" "autoscaler s" "cancelled s"
      "s1 = s\<lparr>autoscaler := False\<rparr>"
  | "\<not> mainDone s" "e = MainJoin" "wg s = 0"
      "s1 = s\<lparr>mainDone := True, stdout := stdout s @ summary_lines s\<rparr>"
proof -
  from assms have nd: "\<not> mainDone s"
    by (cases "mainDone s") (simp_all add: step_def)
  show thesis
  proof (cases e)
    case Signal
    with assms nd have "signal_step s = Inr s1" by (simp add: step_def)
    then show thesis
      by (cases rule: signal_step_cases) (rule that(1) [OF nd Signal])
  next
    case (Producer c)
    with assms nd have "producer_step c s = Inr s1" by (simp add: step_def)
    then show thesis
    proof (cases rule: producer_step_cases)
      case p_finish
      then show ?thesis by (rule that(2) [OF nd Producer])
    next
      case (p_skip x es)
      then show ?thesis by (rule that(3) [OF nd Producer])
    next
      case (p_send p es)
      from Producer p_send(3) have "e = Producer SelWork" by simp
      from nd this p_send(1,2,4,5,6) show ?thesis by (rule that(4))
    next
      case (p_cancel p es)
      from Producer p_cancel(3) have "e = Producer SelDone" by simp
      from nd this p_cancel(1,2,4,5,6) show ?thesis by (rule that(5))
    qed
  next
    case (Worker i c)
    with assms nd have "worker_step fs i c s = Inr s1" by (simp add: step_def)
    then show thesis
    proof (cases rule: worker_step_cases)
      case w_cancel
      from Worker w_cancel(3) have "e = Worker i SelDone" by simp
      from nd this w_cancel(1,2,4,5,6) show ?thesis by (rule that(6))
    next
      case w_closed
      from Worker w_closed(3) have "e = Worker i SelWork" by simp
      from nd this w_closed(1,2,4,5,6,7) show ?thesis by (rule that(7))
    next
      case (w_recv p ps)
      from Worker w_recv(3) have "e = Worker i SelWork" by simp
      from nd this w_recv(1,2,4,5) show ?thesis by (rule that(8))
    next
      case (w_ok p ls)
      then show ?thesis by (rule that(9) [OF nd Worker])
    next
      case (w_bad p err ls)
      then show ?thesis by (rule that(10) [OF nd Worker])
    next
      case (w_log err)
      then show ?thesis by (rule that(11) [OF nd Worker])
    qed
  next
    case (Reporter c)
    with assms nd have "reporter_step c s = Inr s1" by (simp add: step_def)
    then show thesis
    proof (cases rule: reporter_step_cases)
      case r_tick
      from Reporter r_tick(2) have "e = Reporter SelWork" by simp
      from nd this r_tick(1,3) show ?thesis by (rule that(12))
    next
      case r_exit
      from Reporter r_exit(2) have "e = Reporter SelDone" by simp
      from nd this r_exit(1,3,4) show ?thesis by (rule that(13))
    qed
  next
    case (Autoscaler c)
    with assms nd have "autoscaler_step c s = Inr s1" by (simp add: step_def)
    then show thesis
    proof (cases rule: autoscaler_step_cases)
      case a_tick
      from Autoscaler a_tick(2) have "e = Autoscaler SelWork" by simp
      from nd this a_tick(1,3) show ?thesis by (rule that(14))
    next
      case a_exit
      from Autoscaler a_exit(2) have "e = Autoscaler SelDone" by simp
      from nd this a_exit(1,3,4) show ?thesis by (rule that(15))
    qed
  next
    case MainJoin
    with assms nd have "main_join s = Inr s1" by (simp add: step_def)
    then show thesis
      by (cases rule: main_join_cases) (rule that(16) [OF nd MainJoin])
  qed
qed

section \<open>Invariants\<close>

lemma count_st_Nil [simp]: "count_st P [] = 0"
  by (simp add: count_st_def)

lemma count_st_append [simp]: "count_st P (ws @ vs) = count_st P ws + count_st P vs"
  by (simp add: count_st_def)

lemma count_st_Cons [simp]:
  "count_st P (w # ws) = (if P (wst w) then 1 else 0) + count_st P ws"
  by (simp add: count_st_def)

lemma count_st_update:
  "i < length ws \<Longrightarrow>
   count_st P (ws[i := w]) =
     count_st P ws - (if P (wst (ws ! i)) then 1 else 0) + (if P (wst w) then 1 else 0)"
proof (induction ws arbitrary: i)
  case Nil
  then show ?case by simp
next
  case (Cons v vs)
  show ?case
  proof (cases i)
    case 0
    then show ?thesis by simp
  next
    case (Suc j)
    with Cons.prems have "j < length vs" by simp
    from Cons.IH [OF this] Suc show ?thesis by simp
  qed
qed

lemma count_st_le: "count_st P ws \<le> int (length ws)"
  by (simp add: count_st_def)

lemma count_st_ge: "0 \<le> count_st P ws"
  by (simp add: count_st_def)

lemma count_st_spawned: "count_st P (spawned i m) = (if P WSelect then int m else 0)"
  by (induction m arbitrary: i) (simp_all add: spawned_def count_st_def)

lemma files_append [simp]: "files (xs @ ys) = files xs @ files ys"
  by (induction xs rule: files.induct) auto

lemma files_skip: "\<forall>p. x \<noteq> EntryFile p \<Longrightarrow> files (x # es) = files es"
  by (cases x) simp_all

lemma autoscaler_tick_frame:
  "\<exists>m. workers (autoscaler_tick s) = workers s @ spawned (workerID s) m \<and>
       wg (autoscaler_tick s) = wg s + int m"
  "cancelled (autoscaler_tick s) = cancelled s \<and> jobs (autoscaler_tick s) = jobs s \<and>
   metrics (autoscaler_tick s) = metrics s \<and> errors (autoscaler_tick s) = errors s \<and>
   pending (autoscaler_tick s) = pending s \<and> producer (autoscaler_tick s) = producer s \<and>
   reporter (autoscaler_tick s) = reporter s \<and> autoscaler (autoscaler_tick s) = autoscaler s \<and>
   mainDone (autoscaler_tick s) = mainDone s \<and> dequeued (autoscaler_tick s) = dequeued s"
proof -
  have a: "workers (scale_up 2 s) = workers s @ spawned (workerID s) (spawn_count 2 (activeWorkers s)) \<and>
      wg (scale_up 2 s) = wg s + int (spawn_count 2 (activeWorkers s))"
    using scale_up_workers [of 2 s] scale_up_counters [of 2 s] by simp
  have b: "workers s = workers s @ spawned (workerID s) 0 \<and> wg s = wg s + int 0"
    by (simp add: spawned_def)
  show "\<exists>m. workers (autoscaler_tick s) = workers s @ spawned (workerID s) m \<and>
       wg (autoscaler_tick s) = wg s + int m"
  proof (cases "50 < length (buf (jobs s)) \<and> activeWorkers s < maxWorkers")
    case True
    with a have "workers (autoscaler_tick s) =
        workers s @ spawned (workerID s) (spawn_count 2 (activeWorkers s)) \<and>
      wg (autoscaler_tick s) = wg s + int (spawn_count 2 (activeWorkers s))"
      by (simp add: autoscaler_tick_def Let_def)
    then show ?thesis by blast
  next
    case False
    with b have "workers (autoscaler_tick s) = workers s @ spawned (workerID s) 0 \<and>
      wg (autoscaler_tick s) = wg s + int 0"
      by (auto simp: autoscaler_tick_def Let_def)
    then show ?thesis by blast
  qed
  show "cancelled (autoscaler_tick s) = cancelled s \<and> jobs (autoscaler_tick s) = jobs s \<and>
   metrics (autoscaler_tick s) = metrics s \<and> errors (autoscaler_tick s) = errors s \<and>
   pending (autoscaler_tick s) = pending s \<and> producer (autoscaler_tick s) = producer s \<and>
   reporter (autoscaler_tick s) = reporter s \<and> autoscaler (autoscaler_tick s) = autoscaler s \<and>
   mainDone (autoscaler_tick s) = mainDone s \<and> dequeued (autoscaler_tick s) = dequeued s"
    using scale_up_frame [of 2 s] by (simp add: autoscaler_tick_def Let_def)
qed

lemma inv_wg_step:
  assumes "step fs e s = Inr s1" and "inv_wg s"
  shows "inv_wg s1"
  using assms
proof (cases rule: step_cases)
  case a_tick
  from autoscaler_tick_frame(1) [of s] obtain m where
    "workers (autoscaler_tick s) = workers s @ spawned (workerID s) m"
    "wg (autoscaler_tick s) = wg s + int m" by blast
  with a_tick assms(2) show ?thesis
    by (simp add: inv_wg_def running_def count_st_spawned)
qed (simp_all add: inv_wg_def running_def count_st_update)

lemma length_spawned: "length (spawned i m) = m"
  by (simp add: spawned_def)

lemma held_nth:
  "inv_err fs s \<Longrightarrow> i < length (workers s) \<Longrightarrow> held fs (dequeued s) (wst (workers s ! i))"
  using nth_mem [of i "workers s"] by (simp add: inv_err_def)

lemma inv_chan_step:
  assumes "step fs e s = Inr s1" and "inv_chan s"
  shows "inv_chan s1"
  using assms
proof (cases rule: step_cases)
  case a_tick
  with assms(2) autoscaler_tick_frame(2) [of s] show ?thesis
    by (simp add: inv_chan_def)
qed (simp_all add: inv_chan_def)

lemma inv_hist_step:
  assumes "step fs e s = Inr s1" and "inv_hist walk s"
  shows "inv_hist walk s1"
  using assms
proof (cases rule: step_cases)
  case a_tick
  with assms(2) autoscaler_tick_frame(2) [of s] show ?thesis
    by (simp add: inv_hist_def)
qed (simp_all add: inv_hist_def files_skip)

lemma inv_drain_step:
  assumes "step fs e s = Inr s1" and "inv_drain s"
  shows "inv_drain s1"
  using assms
proof (cases rule: step_cases)
  case a_tick
  from autoscaler_tick_frame(1) [of s] obtain m where
    "workers (autoscaler_tick s) = workers s @ spawned (workerID s) m" by blast
  with a_tick assms(2) autoscaler_tick_frame(2) [of s] show ?thesis
    by (simp add: inv_drain_def running_def count_st_spawned length_spawned)
qed (auto simp: inv_drain_def running_def count_st_update)

lemma good_ok: "processFile fs p = (None, ls) \<Longrightarrow> good fs p"
  by (simp add: good_def)

lemma good_bad: "processFile fs p = (Some err, ls) \<Longrightarrow> \<not> good fs p"
  by (simp add: good_def)

lemma inv_count_step:
  assumes "step fs e s = Inr s1" and "inv_count fs s"
  shows "inv_count fs s1"
  using assms
proof (cases rule: step_cases)
  case a_tick
  from autoscaler_tick_frame(1) [of s] obtain m where
    "workers (autoscaler_tick s) = workers s @ spawned (workerID s) m" by blast
  with a_tick assms(2) autoscaler_tick_frame(2) [of s] show ?thesis
    by (simp add: inv_count_def count_st_spawned)
next
  case (w_ok i c p ls)
  with assms(2) good_ok [OF w_ok(5)] show ?thesis
    by (simp add: inv_count_def count_st_update)
next
  case (w_bad i c p err ls)
  with assms(2) good_bad [OF w_bad(5)] show ?thesis
    by (simp add: inv_count_def count_st_update)
qed (simp_all add: inv_count_def count_st_update)

lemma recorded_mono: "recorded fs dq e \<Longrightarrow> recorded fs (dq @ [p]) e"
  by (simp add: recorded_def)

lemma held_mono: "held fs dq st \<Longrightarrow> held fs (dq @ [p]) st"
  by (cases st) (simp_all add: recorded_mono)

lemma all_update:
  assumes "\<forall>w \<in> set ws. Q (wst w)" and "Q (wst v)"
  shows "\<forall>w \<in> set (ws[i := v]). Q (wst w)"
  using assms set_update_subset_insert [of ws i v] by auto

lemma recorded_bad:
  assumes "processFile fs p = (Some err, ls)" and "p \<in> set dq"
  shows "recorded fs dq err"
proof -
  from assms(1) have "perror_path err = p"
    by (auto simp: processFile_def split: fileres.splits)
  with assms show ?thesis by (simp add: recorded_def)
qed

lemma inv_err_step:
  assumes "step fs e s = Inr s1" and "inv_err fs s"
  shows "inv_err fs s1"
  using assms
proof (cases rule: step_cases)
  case a_tick
  from autoscaler_tick_frame(1) [of s] obtain m where
    "workers (autoscaler_tick s) = workers s @ spawned (workerID s) m" by blast
  with a_tick assms(2) autoscaler_tick_frame(2) [of s] show ?thesis
    by (auto simp: inv_err_def spawned_def)
next
  case (w_recv i p ps)
  from assms(2) have "\<forall>w \<in> set (workers s). held fs (dequeued s @ [p]) (wst w)"
    by (simp add: inv_err_def held_mono)
  then have "\<forall>w \<in> set ((workers s)[i := (workers s ! i)\<lparr>wst := WProcessing p\<rparr>]).
      held fs (dequeued s @ [p]) (wst w)"
    by (rule all_update) simp
  with w_recv assms(2) show ?thesis
    by (simp add: inv_err_def recorded_mono)
next
  case (w_bad i c p err ls)
  from assms(2) w_bad(3) have "held fs (dequeued s) (wst (workers s ! i))"
    by (rule held_nth)
  with w_bad(4) have "p \<in> set (dequeued s)" by simp
  from recorded_bad [OF w_bad(5) this] have r: "recorded fs (dequeued s) err" .
  from assms(2) have "\<forall>w \<in> set (workers s). held fs (dequeued s) (wst w)"
    by (simp add: inv_err_def)
  then have "\<forall>w \<in> set ((workers s)[i := (workers s ! i)\<lparr>wst := WLogging err\<rparr>]).
      held fs (dequeued s) (wst w)"
    by (rule all_update) (simp add: r)
  with w_bad assms(2) show ?thesis
    by (simp add: inv_err_def)
next
  case (w_log i c err)
  from assms(2) w_log(3) have "held fs (dequeued s) (wst (workers s ! i))"
    by (rule held_nth)
  with w_log(4) have r: "recorded fs (dequeued s) err" by simp
  from assms(2) have "\<forall>w \<in> set (workers s). held fs (dequeued s) (wst w)"
    by (simp add: inv_err_def)
  then have "\<forall>w \<in> set ((workers s)[i := (workers s ! i)\<lparr>wst := WSelect\<rparr>]).
      held fs (dequeued s) (wst w)"
    by (rule all_update) simp
  with w_log assms(2) r show ?thesis
    by (simp add: inv_err_def)
next
  case (w_ok i c p ls)
  from assms(2) have "\<forall>w \<in> set (workers s). held fs (dequeued s) (wst w)"
    by (simp add: inv_err_def)
  then have "\<forall>w \<in> set ((workers s)[i := (workers s ! i)\<lparr>wst := WSelect\<rparr>]).
      held fs (dequeued s) (wst w)"
    by (rule all_update) simp
  with w_ok assms(2) show ?thesis
    by (simp add: inv_err_def)
next
  case (w_cancel i)
  from assms(2) have "\<forall>w \<in> set (workers s). held fs (dequeued s) (wst w)"
    by (simp add: inv_err_def)
  then have "\<forall>w \<in> set ((workers s)[i := (workers s ! i)\<lparr>wst := WExited\<rparr>]).
      held fs (dequeued s) (wst w)"
    by (rule all_update) simp
  with w_cancel assms(2) show ?thesis
    by (simp add: inv_err_def)
next
  case (w_closed i)
  from assms(2) have "\<forall>w \<in> set (workers s). held fs (dequeued s) (wst w)"
    by (simp add: inv_err_def)
  then have "\<forall>w \<in> set ((workers s)[i := (workers s ! i)\<lparr>wst := WExited\<rparr>]).
      held fs (dequeued s) (wst w)"
    by (rule all_update) simp
  with w_closed assms(2) show ?thesis
    by (simp add: inv_err_def)
qed (simp_all add: inv_err_def)

lemma inv_main_step:
  assumes "step fs e s = Inr s1" and "inv_main s"
  shows "inv_main s1"
  using assms
proof (cases rule: step_cases)
  case a_tick
  with autoscaler_tick_frame(2) [of s] show ?thesis
    by (simp add: inv_main_def)
next
  case m_join
  then show ?thesis
    by (simp add: inv_main_def summary_lines_def)
qed (simp_all add: inv_main_def)

lemma pool_step: "\<lparr>wid = i, wst = WSelect\<rparr> # pool (i + 1) k = pool i (Suc k)"
  unfolding pool_def
  by (simp add: upt_rec [of 0 "Suc k"] map_Suc_upt [symmetric] del: upt_Suc)

lemma start_pool_workers:
  "workers (start_pool k i s) = workers s @ pool i k \<and> wg (start_pool k i s) = wg s + int k"
proof (induction k arbitrary: i s)
  case 0
  show ?case by (simp add: pool_def)
next
  case (Suc k)
  show ?case by (simp add: Suc.IH go_worker_def pool_step [symmetric])
qed

lemma start_pool_frame:
  "cancelled (start_pool k i s) = cancelled s \<and> jobs (start_pool k i s) = jobs s \<and>
   metrics (start_pool k i s) = metrics s \<and> errors (start_pool k i s) = errors s \<and>
   pending (start_pool k i s) = pending s \<and> producer (start_pool k i s) = producer s \<and>
   reporter (start_pool k i s) = reporter s \<and> autoscaler (start_pool k i s) = autoscaler s \<and>
   workerID (start_pool k i s) = workerID s \<and> activeWorkers (start_pool k i s) = activeWorkers s \<and>
   mainDone (start_pool k i s) = mainDone s \<and> dequeued (start_pool k i s) = dequeued s \<and>
   stdout (start_pool k i s) = stdout s"
  by (induction k arbitrary: i s) (simp_all add: go_worker_def)

lemma count_st_pool: "count_st P (pool i k) = (if P WSelect then int k else 0)"
  by (induction k arbitrary: i) (simp_all add: pool_def count_st_def)

lemma length_pool: "length (pool i k) = k"
  by (simp add: pool_def)

lemma init_fields:
  "workers (init n walk) = pool 0 (nat n)" "wg (init n walk) = int (nat n)"
  "cancelled (init n walk) = False" "jobs (init n walk) = \<lparr>buf = [], closed = False\<rparr>"
  "metrics (init n walk) = \<lparr>processed = 0, failed = 0\<rparr>" "errors (init n walk) = []"
  "pending (init n walk) = walk" "producer (init n walk) = PWalking"
  "reporter (init n walk) = True" "autoscaler (init n walk) = True"
  "workerID (init n walk) = n" "activeWorkers (init n walk) = n"
  "mainDone (init n walk) = False" "dequeued (init n walk) = []" "stdout (init n walk) = []"
  by (simp_all add: init_def start_pool_workers start_pool_frame)

lemma wst_pool: "w \<in> set (pool i k) \<Longrightarrow> wst w = WSelect"
  by (auto simp: pool_def)

lemma inv_init: "inv fs walk (init n walk)"
  by (simp add: inv_def inv_wg_def inv_chan_def inv_hist_def inv_drain_def inv_count_def
      inv_err_def inv_main_def init_fields running_def count_st_pool length_pool wst_pool
      jobsCap_def)

lemma inv_step:
  assumes "step fs e s = Inr s1" and "inv fs walk s"
  shows "inv fs walk s1"
  using assms inv_wg_step [OF assms(1)] inv_chan_step [OF assms(1)] inv_hist_step [OF assms(1)]
    inv_drain_step [OF assms(1)] inv_count_step [OF assms(1)] inv_err_step [OF assms(1)]
    inv_main_step [OF assms(1)]
  by (simp add: inv_def)

lemma inv_exec:
  "inv fs walk s \<Longrightarrow> exec fs es s = Inr s1 \<Longrightarrow> inv fs walk s1"
proof (induction es arbitrary: s)
  case Nil
  then show ?case by simp
next
  case (Cons e es)
  from Cons.prems(2) obtain s2 where s2: "step fs e s = Inr s2" "exec fs es s2 = Inr s1"
    by (auto split: sum.splits)
  from inv_step [OF s2(1) Cons.prems(1)] s2(2) show ?case by (rule Cons.IH)
qed

lemma inv_reachable: "exec fs es (init n walk) = Inr s \<Longrightarrow> inv fs walk s"
  using inv_init by (rule inv_exec)

lemma running_pos:
  assumes "i < length ws" and "wst (ws ! i) \<noteq> WExited"
  shows "0 < running ws"
proof -
  from assms(2) have "is_running (wst (ws ! i))" by (cases "wst (ws ! i)") simp_all
  with assms(1) have "ws ! i \<in> set (filter (\<lambda>w. is_running (wst w)) ws)" by simp
  then have "filter (\<lambda>w. is_running (wst w)) ws \<noteq> []" by (metis empty_iff empty_set)
  then show ?thesis by (simp add: running_def count_st_def)
qed

lemma producer_no_panic:
  assumes "inv_chan s"
  shows "producer_step c s \<noteq> Inl (Panic x)"
proof (cases "producer s = PWalking")
  case False
  then show ?thesis by (simp add: producer_step_exited)
next
  case True
  with assms have nc: "\<not> closed (jobs s)" by (simp add: inv_chan_def)
  show ?thesis
  proof (cases "pending s")
    case Nil
    with True nc show ?thesis by (simp add: producer_step_finish)
  next
    case (Cons e es)
    show ?thesis
    proof (cases "\<exists>p. e = EntryFile p")
      case False
      then have "\<forall>p. e \<noteq> EntryFile p" by simp
      from producer_step_skip [OF True Cons this] show ?thesis by simp
    next
      case True2: True
      then obtain p where p: "pending s = EntryFile p # es" using Cons by auto
      show ?thesis
        using producer_step_send [OF True p] producer_step_cancel [OF True p] nc
        by (cases c) simp_all
    qed
  qed
qed

lemma worker_no_panic:
  assumes "inv_wg s"
  shows "worker_step fs i c s \<noteq> Inl (Panic x)"
proof (cases "i < length (workers s)")
  case False
  then show ?thesis by (simp add: worker_step_none)
next
  case True
  show ?thesis
  proof (cases "wst (workers s ! i)")
    case WExited
    with True show ?thesis by (simp add: worker_step_exited)
  next
    case (WLogging err)
    from worker_step_log [OF True this] show ?thesis by simp
  next
    case (WProcessing p)
    obtain r ls where pf: "processFile fs p = (r, ls)" by (cases "processFile fs p")
    show ?thesis
    proof (cases r)
      case None
      with pf have "processFile fs p = (None, ls)" by simp
      from worker_step_ok [OF True WProcessing this] show ?thesis by simp
    next
      case (Some err)
      with pf have "processFile fs p = (Some err, ls)" by simp
      from worker_step_bad [OF True WProcessing this] show ?thesis by simp
    qed
  next
    case WSelect
    then have "wst (workers s ! i) \<noteq> WExited" by simp
    from running_pos [OF True this] assms have pos: "0 < wg s" by (simp add: inv_wg_def)
    show ?thesis
      using worker_step_cancel [OF True WSelect, of fs] worker_step_recv [OF True WSelect, of fs] pos
      by (cases c) (simp_all split: list.splits)
  qed
qed

lemma step_no_panic:
  assumes "inv_wg s" and "inv_chan s"
  shows "step fs e s \<noteq> Inl (Panic x)"
proof (cases "mainDone s")
  case True
  then show ?thesis by (simp add: step_def)
next
  case False
  show ?thesis
  proof (cases e)
    case Signal
    with False show ?thesis by (simp add: step_def signal_step_def)
  next
    case (Producer c)
    with False producer_no_panic [OF assms(2)] show ?thesis by (simp add: step_def)
  next
    case (Worker i c)
    with False worker_no_panic [OF assms(1)] show ?thesis by (simp add: step_def)
  next
    case (Reporter c)
    with False show ?thesis by (cases c) (simp_all add: step_def reporter_step_def)
  next
    case (Autoscaler c)
    with False show ?thesis by (cases c) (simp_all add: step_def autoscaler_step_def)
  next
    case MainJoin
    with False show ?thesis by (simp add: step_def main_join_def)
  qed
qed

lemma exec_no_panic:
  "inv fs walk s \<Longrightarrow> exec fs es s \<noteq> Inl (Panic x)"
proof (induction es arbitrary: s)
  case Nil
  then show ?case by simp
next
  case (Cons e es)
  show ?case
  proof (cases "step fs e s")
    case (Inl f)
    with step_no_panic [of s fs e x] Cons.prems show ?thesis by (auto simp: inv_def)
  next
    case (Inr s2)
    from inv_step [OF Inr Cons.prems] have "exec fs es s2 \<noteq> Inl (Panic x)" by (rule Cons.IH)
    with Inr show ?thesis by simp
  qed
qed

section \<open>The counters\<close>

lemma exec_append:
  "exec fs (xs @ ys) s = (case exec fs xs s of Inl f \<Rightarrow> Inl f | Inr s1 \<Rightarrow> exec fs ys s1)"
  by (induction xs arbitrary: s) (simp_all split: sum.splits)


lemma count_st_split:
  "count_st (holds_good fs) ws + count_st (holds_bad fs) ws = count_st is_processing ws"
proof (induction ws)
  case Nil
  show ?case by simp
next
  case (Cons w ws)
  then show ?case by (cases "wst w") simp_all
qed

lemma filter_split:
  "int (length (filter P xs)) + int (length (filter (\<lambda>x. \<not> P x) xs)) = int (length xs)"
  using sum_length_filter_compl [of P xs] by linarith

lemma accounting:
  assumes "inv_count fs s"
  shows "processed (metrics s) + failed (metrics s) + count_st is_processing (workers s) =
    int (length (dequeued s))"
  using assms count_st_split [of fs "workers s"] filter_split [of "good fs" "dequeued s"]
  by (simp add: inv_count_def)

lemma step_metrics:
  assumes "step fs e s = Inr s1"
  shows "case completes s e of
      None \<Rightarrow> metrics s1 = metrics s
    | Some p \<Rightarrow>
        if good fs p
        then processed (metrics s1) = processed (metrics s) + 1 \<and>
             failed (metrics s1) = failed (metrics s)
        else processed (metrics s1) = processed (metrics s) \<and>
             failed (metrics s1) = failed (metrics s) + 1"
  using assms
proof (cases rule: step_cases)
  case a_tick
  with autoscaler_tick_frame(2) [of s] show ?thesis by (simp add: completes_def)
next
  case (w_ok i c p ls)
  with good_ok [OF w_ok(5)] show ?thesis by (simp add: completes_def)
next
  case (w_bad i c p err ls)
  with good_bad [OF w_bad(5)] show ?thesis by (simp add: completes_def)
qed (simp_all add: completes_def)

text \<open>
  Claim C5. In every state a run can reach, \<open>processed + failed\<close> is at most the number
  of jobs received from the queue so far; more exactly, every received job is either
  counted in one of the two counters or still inside \<^verbatim>\<open>processFile\<close> at some worker. The
  counters never decrease: a step changes them only when it is the step of a worker that
  finishes \<^verbatim>\<open>processFile\<close> for a received path, and that step adds exactly one to exactly one
  counter, \<open>processed\<close> when the file was hashed and \<open>failed\<close> when opening or reading
  failed. Every other step leaves both counters as they are.
\<close>

theorem counters_never_exceed_dequeued:
  assumes "exec fs es (init n walk) = Inr s"
  shows "processed (metrics s) + failed (metrics s) \<le> int (length (dequeued s)) \<and>
    processed (metrics s) + failed (metrics s) + count_st is_processing (workers s) =
      int (length (dequeued s)) \<and>
    (\<forall>e s1. step fs e s = Inr s1 \<longrightarrow>
       (case completes s e of
          None \<Rightarrow> metrics s1 = metrics s
        | Some p \<Rightarrow>
            if good fs p
            then processed (metrics s1) = processed (metrics s) + 1 \<and>
                 failed (metrics s1) = failed (metrics s)
            else processed (metrics s1) = processed (metrics s) \<and>
                 failed (metrics s1) = failed (metrics s) + 1))"
proof -
  from inv_reachable [OF assms] have c: "inv_count fs s" by (simp add: inv_def)
  from accounting [OF c] have a: "processed (metrics s) + failed (metrics s) +
      count_st is_processing (workers s) = int (length (dequeued s))" .
  moreover from a count_st_ge [of is_processing "workers s"]
  have "processed (metrics s) + failed (metrics s) \<le> int (length (dequeued s))" by linarith
  ultimately show ?thesis using step_metrics [of fs _ s] by blast
qed

text \<open>A pool of one worker that has received the first of two files: nothing is counted
  yet, and its next step counts the file as processed.\<close>

theorem counters_never_exceed_dequeued_witness:
  "\<exists>s s1. exec fs_demo sched_one (init 1 [EntryFile ''f'', EntryFile ''locked'']) = Inr s \<and>
     dequeued s = [''f''] \<and> processed (metrics s) + failed (metrics s) = 0 \<and>
     step fs_demo (Worker 0 SelWork) s = Inr s1 \<and>
     processed (metrics s1) = processed (metrics s) + 1 \<and> failed (metrics s1) = failed (metrics s) \<and>
     processed (metrics s1) + failed (metrics s1) \<le> int (length (dequeued s1))"
proof -
  have "case exec fs_demo (sched_one @ [Worker 0 SelWork])
               (init 1 [EntryFile ''f'', EntryFile ''locked'']) of
          Inl f \<Rightarrow> False | Inr s1 \<Rightarrow> True"
    by code_simp
  then obtain s1 where s1: "exec fs_demo (sched_one @ [Worker 0 SelWork])
      (init 1 [EntryFile ''f'', EntryFile ''locked'']) = Inr s1"
    by (auto split: sum.splits)
  have "case exec fs_demo sched_one (init 1 [EntryFile ''f'', EntryFile ''locked'']) of
          Inl f \<Rightarrow> False
        | Inr s \<Rightarrow> dequeued s = [''f''] \<and> processed (metrics s) + failed (metrics s) = 0 \<and>
            wst (workers s ! 0) = WProcessing ''f'' \<and> good fs_demo ''f'' \<and>
            0 < length (workers s)"
    by code_simp
  then obtain s where s: "exec fs_demo sched_one (init 1 [EntryFile ''f'', EntryFile ''locked'']) = Inr s"
    "dequeued s = [''f'']" "processed (metrics s) + failed (metrics s) = 0"
    "wst (workers s ! 0) = WProcessing ''f''" "good fs_demo ''f''" "0 < length (workers s)"
    by (auto split: sum.splits)
  from s1 s(1) have st: "step fs_demo (Worker 0 SelWork) s = Inr s1"
    by (simp add: exec_append split: sum.splits)
  from s(4,6) have "completes s (Worker 0 SelWork) = Some ''f''" by (simp add: completes_def)
  with counters_never_exceed_dequeued [OF s(1)] st s(5)
  have "processed (metrics s1) = processed (metrics s) + 1 \<and>
      failed (metrics s1) = failed (metrics s)"
    by fastforce
  moreover from counters_never_exceed_dequeued [OF s1]
  have "processed (metrics s1) + failed (metrics s1) \<le> int (length (dequeued s1))" by simp
  ultimately show ?thesis using s st by blast
qed

section \<open>Complete runs\<close>




lemma drained:
  assumes "inv fs walk s" and "\<not> cancelled s" and "running (workers s) < int (length (workers s))"
  shows "closed (jobs s) \<and> buf (jobs s) = [] \<and> pending s = [] \<and> dequeued s = files walk"
proof -
  from assms have c: "closed (jobs s)" "buf (jobs s) = []" by (simp_all add: inv_def inv_drain_def)
  with assms(1) have "producer s = PExited" by (simp add: inv_def inv_chan_def)
  with assms(1,2) have p: "pending s = []" by (simp add: inv_def inv_drain_def)
  with assms(1) c show ?thesis by (simp add: inv_def inv_hist_def)
qed




section \<open>The error log\<close>

lemma step_worker: "\<not> mainDone s \<Longrightarrow> step fs (Worker i c) s = worker_step fs i c s"
  by (simp add: step_def)

lemma step_producer: "\<not> mainDone s \<Longrightarrow> step fs (Producer c) s = producer_step c s"
  by (simp add: step_def)






section \<open>Entries the walk reports with an error\<close>

lemma held_walk:
  assumes "inv fs walk s" and "w \<in> set (workers s)" and "wst w = WProcessing p"
  shows "p \<in> set (files walk)"
proof -
  from assms(1,2) have "held fs (dequeued s) (wst w)" by (simp add: inv_def inv_err_def)
  with assms(3) have "p \<in> set (dequeued s)" by simp
  moreover from assms(1) have "files walk = dequeued s @ buf (jobs s) @ files (pending s)"
    by (simp add: inv_def inv_hist_def)
  ultimately show ?thesis by simp
qed

lemma errors_walk:
  assumes "inv fs walk s" and "err \<in> set (errors s)"
  shows "perror_path err \<in> set (files walk) \<and> fst (processFile fs (perror_path err)) = Some err"
proof -
  from assms have "recorded fs (dequeued s) err" by (simp add: inv_def inv_err_def)
  moreover from assms(1) have "files walk = dequeued s @ buf (jobs s) @ files (pending s)"
    by (simp add: inv_def inv_hist_def)
  ultimately show ?thesis by (simp add: recorded_def)
qed

lemma counters_walk:
  assumes "inv fs walk s"
  shows "processed (metrics s) \<le> int (length (filter (good fs) (files walk))) \<and>
    failed (metrics s) \<le> int (length (filter (\<lambda>p. \<not> good fs p) (files walk)))"
proof -
  from assms have h: "files walk = dequeued s @ buf (jobs s) @ files (pending s)"
    by (simp add: inv_def inv_hist_def)
  from assms have c: "processed (metrics s) + count_st (holds_good fs) (workers s) =
       int (length (filter (good fs) (dequeued s)))"
     "failed (metrics s) + count_st (holds_bad fs) (workers s) =
       int (length (filter (\<lambda>p. \<not> good fs p) (dequeued s)))"
    by (simp_all add: inv_def inv_count_def)
  from c count_st_ge [of "holds_good fs" "workers s"] count_st_ge [of "holds_bad fs" "workers s"]
  have "processed (metrics s) \<le> int (length (filter (good fs) (dequeued s)))"
    "failed (metrics s) \<le> int (length (filter (\<lambda>p. \<not> good fs p) (dequeued s)))"
    by linarith+
  then show ?thesis by (simp add: h)
qed

text \<open>
  Claim C10. In every reachable state: when the next callback of the walk carries an
  error, the traversal step only drops that entry, whatever case of the \<^verbatim>\<open>select\<close> would
  be taken, and leaves the queue and everything else as it was. The files of the walk (its
  entries without error that are no directory), in order, are exactly the paths received
  so far, then the buffered ones, then those not yet visited; so a path that the walk
  reported only with an error is never buffered, never received, never held by a worker
  and never in the error log. \<open>failed\<close>, together with the failing paths still inside
  \<^verbatim>\<open>processFile\<close>, counts exactly the received paths that fail to open or to read, every
  record of the error log is the failure of a file of the walk, and the two counters are
  bounded by the numbers of good and of failing files of the walk.
\<close>

theorem errored_entries_never_counted:
  assumes "exec fs es (init n walk) = Inr s"
  shows "(\<forall>p m rest c. \<not> mainDone s \<and> producer s = PWalking \<and> pending s = EntryErr p m # rest \<longrightarrow>
       step fs (Producer c) s = Inr (s\<lparr>pending := rest\<rparr>)) \<and>
    files walk = dequeued s @ buf (jobs s) @ files (pending s) \<and>
    (\<forall>p. p \<notin> set (files walk) \<longrightarrow>
       p \<notin> set (buf (jobs s)) \<and> p \<notin> set (dequeued s) \<and>
       (\<forall>w \<in> set (workers s). wst w \<noteq> WProcessing p) \<and>
       (\<forall>err \<in> set (errors s). perror_path err \<noteq> p)) \<and>
    (\<forall>err \<in> set (errors s).
       perror_path err \<in> set (files walk) \<and> fst (processFile fs (perror_path err)) = Some err) \<and>
    failed (metrics s) + count_st (holds_bad fs) (workers s) =
      int (length (filter (\<lambda>p. \<not> good fs p) (dequeued s))) \<and>
    processed (metrics s) \<le> int (length (filter (good fs) (files walk))) \<and>
    failed (metrics s) \<le> int (length (filter (\<lambda>p. \<not> good fs p) (files walk)))"
proof -
  from inv_reachable [OF assms] have i: "inv fs walk s" .
  have skip: "step fs (Producer c) s = Inr (s\<lparr>pending := rest\<rparr>)"
    if "\<not> mainDone s" "producer s = PWalking" "pending s = EntryErr p m # rest" for p m rest c
    using that producer_step_skip [of s "EntryErr p m" rest c] by (simp add: step_producer)
  from i have h: "files walk = dequeued s @ buf (jobs s) @ files (pending s)"
    by (simp add: inv_def inv_hist_def)
  have out: "p \<notin> set (buf (jobs s)) \<and> p \<notin> set (dequeued s) \<and>
       (\<forall>w \<in> set (workers s). wst w \<noteq> WProcessing p) \<and>
       (\<forall>err \<in> set (errors s). perror_path err \<noteq> p)"
    if "p \<notin> set (files walk)" for p
    using that h held_walk [OF i] errors_walk [OF i] by auto
  from i have f: "failed (metrics s) + count_st (holds_bad fs) (workers s) =
      int (length (filter (\<lambda>p. \<not> good fs p) (dequeued s)))"
    by (simp add: inv_def inv_count_def)
  from skip h out errors_walk [OF i] f counters_walk [OF i] show ?thesis by blast
qed

text \<open>A walk whose first callback carries an error for \<open>x\<close>: the first traversal step
  drops the entry, and the complete run counts one processed and one failed file, with
  \<open>x\<close> nowhere.\<close>

theorem errored_entries_never_counted_witness:
  "step fs_demo (Producer SelWork) (init 1 walk_errored) =
     Inr ((init 1 walk_errored)\<lparr>pending := tl walk_errored\<rparr>) \<and>
   (\<exists>s. exec fs_demo sched_errored (init 1 walk_errored) = Inr s \<and> mainDone s \<and>
      processed (metrics s) = 1 \<and> failed (metrics s) = 1 \<and>
      dequeued s = [''locked'', ''f''] \<and> ''x'' \<notin> set (dequeued s) \<and>
      (\<forall>err \<in> set (errors s). perror_path err \<noteq> ''x''))"
proof -
  have x: "''x'' \<notin> set (files walk_errored)" by code_simp
  have "exec fs_demo [] (init 1 walk_errored) = Inr (init 1 walk_errored)" by simp
  from errored_entries_never_counted [OF this]
  have a: "step fs_demo (Producer SelWork) (init 1 walk_errored) =
     Inr ((init 1 walk_errored)\<lparr>pending := tl walk_errored\<rparr>)"
    by (simp add: init_fields walk_errored_def)
  have "case exec fs_demo sched_errored (init 1 walk_errored) of
          Inl f \<Rightarrow> False
        | Inr s \<Rightarrow> mainDone s \<and> processed (metrics s) = 1 \<and> failed (metrics s) = 1 \<and>
            dequeued s = [''locked'', ''f'']"
    by code_simp
  then obtain s where s: "exec fs_demo sched_errored (init 1 walk_errored) = Inr s"
    "mainDone s" "processed (metrics s) = 1" "failed (metrics s) = 1"
    "dequeued s = [''locked'', ''f'']"
    by (auto split: sum.splits)
  from errored_entries_never_counted [OF s(1)] x
  have "''x'' \<notin> set (dequeued s) \<and> (\<forall>err \<in> set (errors s). perror_path err \<noteq> ''x'')"
    by blast
  with a s show ?thesis by blast
qed

section \<open>The traversal and the close of the queue\<close>






section \<open>More running workers than the maximum\<close>

lemma step_activeWorkers:
  assumes "step fs e s = Inr s1"
  shows "activeWorkers s1 \<le> max (activeWorkers s) maxWorkers"
  using assms
proof (cases rule: step_cases)
  case a_tick
  with autoscaler_tick_bound [of s] show ?thesis by simp
qed simp_all

lemma exec_activeWorkers:
  "exec fs es s = Inr s1 \<Longrightarrow> activeWorkers s1 \<le> max (activeWorkers s) maxWorkers"
proof (induction es arbitrary: s)
  case Nil
  then show ?case by simp
next
  case (Cons e es)
  from Cons.prems obtain s2 where s2: "step fs e s = Inr s2" "exec fs es s2 = Inr s1"
    by (auto split: sum.splits)
  from step_activeWorkers [OF s2(1)] Cons.IH [OF s2(2)] show ?case by simp
qed

text \<open>
  Claim C9. There is a run in which more than \<open>maxWorkers = 20\<close> workers are running at
  once: started with 20 workers, a first tick on the empty queue lowers the tracked count
  to 19 and stops nobody; after 51 sends a second tick compares 19 with 20 and starts one
  more worker, so that 21 workers stand at their \<^verbatim>\<open>select\<close> while the tracked count is 20.
  And in every run started with at most 20 workers the tracked count is at most 20 in
  every state.
\<close>

theorem running_workers_can_exceed_max:
  "(\<exists>s1 s2 s3.
      step fs_demo (Autoscaler SelWork) (init 20 (walk_files 51)) = Inr s1 \<and>
      activeWorkers s1 = 19 \<and> running (workers s1) = 20 \<and>
      exec fs_demo (sched_fill 51) s1 = Inr s2 \<and> length (buf (jobs s2)) = 51 \<and>
      step fs_demo (Autoscaler SelWork) s2 = Inr s3 \<and>
      running (workers s3) = 21 \<and> maxWorkers < running (workers s3) \<and>
      activeWorkers s3 = 20) \<and>
   (n \<le> maxWorkers \<longrightarrow> exec fs es (init n walk) = Inr s \<longrightarrow> activeWorkers s \<le> maxWorkers)"
proof
  have "case step fs_demo (Autoscaler SelWork) (init 20 (walk_files 51)) of
          Inl f \<Rightarrow> False
        | Inr s1 \<Rightarrow> activeWorkers s1 = 19 \<and> running (workers s1) = 20 \<and>
           (case exec fs_demo (sched_fill 51) s1 of
              Inl f \<Rightarrow> False
            | Inr s2 \<Rightarrow> length (buf (jobs s2)) = 51 \<and>
               (case step fs_demo (Autoscaler SelWork) s2 of
                  Inl f \<Rightarrow> False
                | Inr s3 \<Rightarrow> running (workers s3) = 21 \<and> maxWorkers < running (workers s3) \<and>
                    activeWorkers s3 = 20))"
    by code_simp
  then show "\<exists>s1 s2 s3.
      step fs_demo (Autoscaler SelWork) (init 20 (walk_files 51)) = Inr s1 \<and>
      activeWorkers s1 = 19 \<and> running (workers s1) = 20 \<and>
      exec fs_demo (sched_fill 51) s1 = Inr s2 \<and> length (buf (jobs s2)) = 51 \<and>
      step fs_demo (Autoscaler SelWork) s2 = Inr s3 \<and>
      running (workers s3) = 21 \<and> maxWorkers < running (workers s3) \<and>
      activeWorkers s3 = 20"
    by (auto split: sum.splits)
  show "n \<le> maxWorkers \<longrightarrow> exec fs es (init n walk) = Inr s \<longrightarrow> activeWorkers s \<le> maxWorkers"
    using exec_activeWorkers [of fs es "init n walk" s] by (auto simp: init_fields)
qed

text \<open>The same run as one schedule: its last state has 21 running workers and, by the
  bound, a tracked count of at most 20.\<close>

theorem running_workers_can_exceed_max_witness:
  "\<exists>s. exec fs_demo sched_overshoot (init 20 (walk_files 51)) = Inr s \<and>
     maxWorkers < running (workers s) \<and> activeWorkers s \<le> maxWorkers"
proof -
  have "case exec fs_demo sched_overshoot (init 20 (walk_files 51)) of
          Inl f \<Rightarrow> False | Inr s \<Rightarrow> maxWorkers < running (workers s)"
    by code_simp
  then obtain s where s: "exec fs_demo sched_overshoot (init 20 (walk_files 51)) = Inr s"
    "maxWorkers < running (workers s)"
    by (auto split: sum.splits)
  have "(20::int) \<le> maxWorkers" by (simp add: maxWorkers_def)
  with running_workers_can_exceed_max [of 20 fs_demo sched_overshoot "walk_files 51" s] s(1)
  have "activeWorkers s \<le> maxWorkers" by blast
  with s show ?thesis by blast
qed

section \<open>Workers at the end of the stream\<close>

lemma count_st_pos:
  assumes "i < length ws" and "P (wst (ws ! i))"
  shows "0 < count_st P ws"
proof -
  from assms have "ws ! i \<in> set (filter (\<lambda>w. P (wst w)) ws)" by simp
  then have "filter (\<lambda>w. P (wst w)) ws \<noteq> []" by (metis empty_iff empty_set)
  then show ?thesis by (simp add: count_st_def)
qed

lemma count_st_compl: "count_st P ws + count_st (\<lambda>st. \<not> P st) ws = int (length ws)"
  by (induction ws) simp_all

lemma returned_worker:
  assumes "i < length ws" and "wst (ws ! i) = WExited"
  shows "running ws < int (length ws)"
proof -
  from assms have "0 < count_st (\<lambda>st. \<not> is_running st) ws"
    by (intro count_st_pos [of i]) simp_all
  with count_st_compl [of is_running ws] show ?thesis by (simp add: running_def)
qed

lemma chan_recv_ok:
  assumes "chan_recv c = Inr ((p, ok), c1)"
  shows "(ok \<longleftrightarrow> buf c \<noteq> []) \<and> (ok \<longrightarrow> buf c = p # buf c1 \<and> closed c1 = closed c) \<and>
    (\<not> ok \<longrightarrow> closed c \<and> c1 = c)"
  using assms by (cases "buf c") (auto simp: chan_recv_def split: if_splits)

lemma processing_step:
  assumes "step fs (Worker i c) s = Inr s1" and "i < length (workers s)"
    and "wst (workers s ! i) = WProcessing p"
  shows "wst (workers s1 ! i) \<noteq> WExited \<and>
    processed (metrics s1) + failed (metrics s1) = processed (metrics s) + failed (metrics s) + 1"
  using assms(1)
proof (cases rule: step_cases)
  case (w_ok j d q ls)
  with assms(2) show ?thesis by simp
next
  case (w_bad j d q err ls)
  with assms(2) show ?thesis by simp
qed (use assms(3) in simp_all)

text \<open>
  Claim C6, amended. In every reachable state without cancellation, a worker that has
  returned implies that the queue is closed and empty and that every file of the walk,
  so every job buffered when the queue was closed, has been received by some worker; each
  of these jobs is counted or still inside \<^verbatim>\<open>processFile\<close> at another worker. A worker at
  its \<^verbatim>\<open>select\<close> cannot take the cancellation case without cancellation; its receive
  delivers the oldest buffered job, also from a closed queue, and the worker then
  processes it; only on an empty closed queue does the receive report \<open>ok = False\<close>, and
  the worker then returns without touching the counters, the log or the history of
  received jobs; on an empty open queue it waits. A worker inside \<^verbatim>\<open>processFile\<close> never
  returns by its next step: that step counts the job. The receive operation itself gives
  \<open>ok = True\<close> exactly for a value taken from the buffer.
\<close>

theorem worker_exit_after_drain:
  assumes "exec fs es (init n walk) = Inr s"
  shows "(\<forall>i. \<not> cancelled s \<and> i < length (workers s) \<and> wst (workers s ! i) = WExited \<longrightarrow>
       closed (jobs s) \<and> buf (jobs s) = [] \<and> dequeued s = files walk \<and>
       processed (metrics s) + failed (metrics s) + count_st is_processing (workers s) =
         int (length (files walk))) \<and>
    (\<forall>i. \<not> mainDone s \<and> i < length (workers s) \<and> wst (workers s ! i) = WSelect \<longrightarrow>
       step fs (Worker i SelWork) s =
         (case buf (jobs s) of
            p # ps \<Rightarrow>
              Inr (s\<lparr>jobs := (jobs s)\<lparr>buf := ps\<rparr>, dequeued := dequeued s @ [p],
                     workers := (workers s)[i := (workers s ! i)\<lparr>wst := WProcessing p\<rparr>]\<rparr>)
          | [] \<Rightarrow>
              if closed (jobs s)
              then Inr (s\<lparr>wg := wg s - 1,
                          workers := (workers s)[i := (workers s ! i)\<lparr>wst := WExited\<rparr>]\<rparr>)
              else Inl Blocked) \<and>
       (\<not> cancelled s \<longrightarrow> step fs (Worker i SelDone) s = Inl Blocked)) \<and>
    (\<forall>i p c s1. i < length (workers s) \<and> wst (workers s ! i) = WProcessing p \<and>
       step fs (Worker i c) s = Inr s1 \<longrightarrow>
       wst (workers s1 ! i) \<noteq> WExited \<and>
       processed (metrics s1) + failed (metrics s1) =
         processed (metrics s) + failed (metrics s) + 1) \<and>
    (\<forall>ch p ok ch1. chan_recv ch = Inr ((p, ok), ch1) \<longrightarrow>
       (ok \<longleftrightarrow> buf ch \<noteq> []) \<and> (ok \<longrightarrow> buf ch = p # buf ch1 \<and> closed ch1 = closed ch) \<and>
       (\<not> ok \<longrightarrow> closed ch \<and> ch1 = ch))"
proof -
  from inv_reachable [OF assms] have i: "inv fs walk s" .
  then have c: "inv_count fs s" and w: "inv_wg s" by (simp_all add: inv_def)
  have one: "closed (jobs s) \<and> buf (jobs s) = [] \<and> dequeued s = files walk \<and>
       processed (metrics s) + failed (metrics s) + count_st is_processing (workers s) =
         int (length (files walk))"
    if h: "\<not> cancelled s" "j < length (workers s)" "wst (workers s ! j) = WExited" for j
  proof -
    from returned_worker [OF h(2,3)] have "running (workers s) < int (length (workers s))" .
    from drained [OF i h(1) this] accounting [OF c] show ?thesis by simp
  qed
  have two: "step fs (Worker j SelWork) s =
         (case buf (jobs s) of
            p # ps \<Rightarrow>
              Inr (s\<lparr>jobs := (jobs s)\<lparr>buf := ps\<rparr>, dequeued := dequeued s @ [p],
                     workers := (workers s)[j := (workers s ! j)\<lparr>wst := WProcessing p\<rparr>]\<rparr>)
          | [] \<Rightarrow>
              if closed (jobs s)
              then Inr (s\<lparr>wg := wg s - 1,
                          workers := (workers s)[j := (workers s ! j)\<lparr>wst := WExited\<rparr>]\<rparr>)
              else Inl Blocked) \<and>
       (\<not> cancelled s \<longrightarrow> step fs (Worker j SelDone) s = Inl Blocked)"
    if h: "\<not> mainDone s" "j < length (workers s)" "wst (workers s ! j) = WSelect" for j
  proof -
    from h(3) have "wst (workers s ! j) \<noteq> WExited" by simp
    from running_pos [OF h(2) this] w have pos: "0 < wg s" by (simp add: inv_wg_def)
    show ?thesis
      using worker_step_recv [OF h(2,3), of fs] worker_step_cancel [OF h(2,3), of fs] pos h(1)
      by (simp add: step_worker split: list.splits)
  qed
  from one two processing_step [of fs _ _ s] chan_recv_ok show ?thesis by blast
qed

text \<open>Two workers and one file: the file is buffered when the queue is closed, the first
  worker receives it, the second finds the queue closed and empty and returns. The queue
  is drained and the one job is accounted for, as a job still in process.\<close>

theorem worker_exit_after_drain_witness:
  "\<exists>s. exec fs_demo sched_early_exit (init 2 [EntryFile ''f'']) = Inr s \<and>
     \<not> cancelled s \<and> wst (workers s ! 1) = WExited \<and>
     closed (jobs s) \<and> buf (jobs s) = [] \<and> dequeued s = [''f''] \<and>
     processed (metrics s) + failed (metrics s) + count_st is_processing (workers s) = 1"
proof -
  have "case exec fs_demo sched_early_exit (init 2 [EntryFile ''f'']) of
          Inl f \<Rightarrow> False
        | Inr s \<Rightarrow> \<not> cancelled s \<and> 1 < length (workers s) \<and> wst (workers s ! 1) = WExited"
    by code_simp
  then obtain s where s: "exec fs_demo sched_early_exit (init 2 [EntryFile ''f'']) = Inr s"
    "\<not> cancelled s" "1 < length (workers s)" "wst (workers s ! 1) = WExited"
    by (auto split: sum.splits)
  from worker_exit_after_drain [OF s(1)] s(2,3,4)
  have "closed (jobs s) \<and> buf (jobs s) = [] \<and> dequeued s = files [EntryFile ''f''] \<and>
       processed (metrics s) + failed (metrics s) + count_st is_processing (workers s) =
         int (length (files [EntryFile ''f'']))"
    by blast
  with s show ?thesis by auto
qed

text \<open>
  Claim C6 as stated fails with two workers: in the run above the second worker has
  returned, without cancellation, while the job that was buffered when the queue was
  closed is still inside \<^verbatim>\<open>processFile\<close> at the first worker and neither counter has moved.
\<close>

theorem worker_exit_after_drain_counterexample:
  "observe (exec fs_demo sched_early_exit (init 2 [EntryFile ''f''])) =
     Some (False, False, 0, 0, [WProcessing ''f'', WExited])"
  by code_simp

section \<open>Cancellation\<close>


lemma exec_Cons_Inr: "step fs e s = Inr s1 \<Longrightarrow> exec fs (e # es) s = exec fs es s1"
  by simp














end
